theory Spec2Isabelle
  imports Main
begin

section \<open>Data model\<close>

text \<open>
  The component keeps a board of nine cells, each \<^verbatim>\<open>null\<close>, \<^verbatim>\<open>'X'\<close> or \<^verbatim>\<open>'O'\<close>
  (\<^verbatim>\<open>type Player = 'X' | 'O' | null\<close>).  A JavaScript array read outside its length
  yields \<^verbatim>\<open>undefined\<close>, and a write outside its length extends the array with holes that
  read as \<^verbatim>\<open>undefined\<close>; the third constructor of \<open>cell\<close> stands for that value, so
  that the functions below are the source's functions on every list and every index.
\<close>

datatype mark = MarkX | MarkO

datatype cell = Null | Undefined | Mark mark

text \<open>\<^verbatim>\<open>winner\<close> is \<^verbatim>\<open>null\<close> (here \<open>None\<close>), a mark, or \<^verbatim>\<open>'draw'\<close>.\<close>

datatype outcome = Win mark | Draw

datatype mode = Single | Multi

datatype level = Easy | Hard

record game =
  board :: "cell list"
  currentPlayer :: mark
  winner :: "outcome option"
  gameMode :: mode
  difficulty :: level
  scores :: "mark \<Rightarrow> nat"

text \<open>JavaScript truthiness of a cell: \<^verbatim>\<open>null\<close> and \<^verbatim>\<open>undefined\<close> are falsy, the
  non-empty strings \<^verbatim>\<open>'X'\<close> and \<^verbatim>\<open>'O'\<close> are truthy.\<close>

fun truthy :: "cell \<Rightarrow> bool" where
  "truthy (Mark m) = True"
| "truthy Null = False"
| "truthy Undefined = False"

text \<open>\<^verbatim>\<open>b[i]\<close> as a read.\<close>

definition cellAt :: "cell list \<Rightarrow> nat \<Rightarrow> cell" where
  "cellAt b i = (if i < length b then b ! i else Undefined)"

text \<open>\<^verbatim>\<open>b[i] = v\<close> as a write.\<close>

definition setCell :: "cell list \<Rightarrow> nat \<Rightarrow> cell \<Rightarrow> cell list" where
  "setCell b i v =
     (if i < length b then b[i := v]
      else b @ replicate (i - length b) Undefined @ [v])"

definition BOARD_SIZE :: nat where
  "BOARD_SIZE = 9"

definition initialBoard :: "cell list" where
  "initialBoard = replicate BOARD_SIZE Null"

definition winningLines :: "(nat \<times> nat \<times> nat) list" where
  "winningLines =
     [(0, 1, 2), (3, 4, 5), (6, 7, 8),
      (0, 3, 6), (1, 4, 7), (2, 5, 8),
      (0, 4, 8), (2, 4, 6)]"

definition initialGame :: game where
  "initialGame =
     \<lparr>board = initialBoard, currentPlayer = MarkX, winner = None,
      gameMode = Single, difficulty = Hard, scores = (\<lambda>m. 0)\<rparr>"

text \<open>The boards the component builds: nine cells, none of them \<^verbatim>\<open>undefined\<close>.\<close>

definition wfBoard :: "cell list \<Rightarrow> bool" where
  "wfBoard b = (length b = 9 \<and> Undefined \<notin> set b)"

section \<open>Rule engine\<close>

text \<open>The condition of the \<^verbatim>\<open>for (const [a, b, c] of ...)\<close> loops.\<close>

definition lineMatch :: "cell list \<Rightarrow> nat \<times> nat \<times> nat \<Rightarrow> bool" where
  "lineMatch squares l =
     (case l of (a, b, c) \<Rightarrow>
        truthy (cellAt squares a) \<and> cellAt squares a = cellAt squares b
        \<and> cellAt squares a = cellAt squares c)"

text \<open>\<^verbatim>\<open>return squares[a]\<close> under the loop's condition, where the cell is a mark.\<close>

fun returnCell :: "cell \<Rightarrow> outcome option" where
  "returnCell (Mark m) = Some (Win m)"
| "returnCell Null = None"
| "returnCell Undefined = None"

text \<open>\<^verbatim>\<open>evaluateWinner\<close> of \<^verbatim>\<open>TicTacToe.tsx\<close>: the loop over the lines, then
  \<^verbatim>\<open>squares.includes(null) ? null : 'draw'\<close>.\<close>

fun evaluateWinnerFrom :: "(nat \<times> nat \<times> nat) list \<Rightarrow> cell list \<Rightarrow> outcome option" where
  "evaluateWinnerFrom [] squares = (if Null \<in> set squares then None else Some Draw)"
| "evaluateWinnerFrom (l # ls) squares =
     (if lineMatch squares l then returnCell (cellAt squares (fst l))
      else evaluateWinnerFrom ls squares)"

definition evaluateWinner :: "cell list \<Rightarrow> outcome option" where
  "evaluateWinner squares = evaluateWinnerFrom winningLines squares"

text \<open>\<^verbatim>\<open>checkWinner\<close> of the earlier variant of the component: the same loop, then
  \<^verbatim>\<open>squares.every(square => square !== null)\<close>.\<close>

fun checkWinnerFrom :: "(nat \<times> nat \<times> nat) list \<Rightarrow> cell list \<Rightarrow> outcome option" where
  "checkWinnerFrom [] squares =
     (if list_all (\<lambda>square. square \<noteq> Null) squares then Some Draw else None)"
| "checkWinnerFrom (l # ls) squares =
     (if lineMatch squares l then returnCell (cellAt squares (fst l))
      else checkWinnerFrom ls squares)"

definition checkWinner :: "cell list \<Rightarrow> outcome option" where
  "checkWinner squares = checkWinnerFrom winningLines squares"

text \<open>The tail shared by \<^verbatim>\<open>updateGameState\<close> and \<^verbatim>\<open>makeComputerMove\<close>: record the
  winner and its score, or pass the turn to \<open>next\<close>.\<close>

definition settle :: "outcome option \<Rightarrow> mark \<Rightarrow> game \<Rightarrow> game" where
  "settle gameWinner next st =
     (case gameWinner of
        Some (Win m) \<Rightarrow> st\<lparr>winner := Some (Win m), scores := (scores st)(m := scores st m + 1)\<rparr>
      | Some Draw \<Rightarrow> st\<lparr>winner := Some Draw\<rparr>
      | None \<Rightarrow> st\<lparr>currentPlayer := next\<rparr>)"

definition flipMark :: "mark \<Rightarrow> mark" where
  "flipMark p = (if p = MarkX then MarkO else MarkX)"

text \<open>
  The handlers that place a mark are \<^verbatim>\<open>async\<close>.  Each runs up to its
  \<^verbatim>\<open>await playSound()\<close> and returns; the rest of it runs when the sound calls have
  come back, with the values that the handler captured from its render (\<^verbatim>\<open>board\<close>,
  \<^verbatim>\<open>currentPlayer\<close>, its locals) and on the state as it is committed by then.  Between
  the two parts the component is rendered and handles whatever arrives.  A \<open>task\<close> is
  such a rest, with what it has captured.
\<close>

datatype task =
    UpdateTail "cell list" mark
  | ClickTail nat "cell list" mark
  | ComputerTail "nat option" "cell list"

text \<open>\<^verbatim>\<open>updateGameState\<close> up to the \<^verbatim>\<open>await\<close>: the guard, the copy with the mark,
  \<^verbatim>\<open>setBoard\<close>.  The rest holds \<^verbatim>\<open>newBoard\<close> and the \<^verbatim>\<open>currentPlayer\<close> of the
  handler's render.\<close>

definition updateGameState_begin :: "nat \<Rightarrow> game \<Rightarrow> game \<times> task option" where
  "updateGameState_begin index st =
     (if truthy (cellAt (board st) index) \<or> winner st \<noteq> None then (st, None)
      else
        let newBoard = setCell (board st) index (Mark (currentPlayer st))
        in (st\<lparr>board := newBoard\<rparr>, Some (UpdateTail newBoard (currentPlayer st))))"

text \<open>\<^verbatim>\<open>updateGameState\<close> after the \<^verbatim>\<open>await\<close>, on the state committed by then:
  \<^verbatim>\<open>evaluateWinner(newBoard)\<close>, then the winner and its score, or the turn passed to
  the other mark than the captured one.\<close>

definition updateGameState_resume :: "cell list \<Rightarrow> mark \<Rightarrow> game \<Rightarrow> game" where
  "updateGameState_resume newBoard player st =
     (let gameWinner = evaluateWinner newBoard
      in settle gameWinner (flipMark player) st)"

text \<open>\<^verbatim>\<open>handleClick\<close> of the earlier variant after its \<^verbatim>\<open>await\<close>, which comes right
  after the guard: the copy of the captured board with the captured mark, \<^verbatim>\<open>setBoard\<close>,
  \<^verbatim>\<open>checkWinner\<close>, and the winner or the turn.\<close>

definition handleClick_v1_resume :: "nat \<Rightarrow> cell list \<Rightarrow> mark \<Rightarrow> game \<Rightarrow> game" where
  "handleClick_v1_resume index b player st =
     (let newBoard = setCell b index (Mark player);
          gameWinner = checkWinner newBoard
      in settle gameWinner (flipMark player) (st\<lparr>board := newBoard\<rparr>))"

text \<open>\<^verbatim>\<open>makeComputerMove\<close> after its \<^verbatim>\<open>await\<close>, which comes between the choice of
  \<^verbatim>\<open>move\<close> and \<^verbatim>\<open>setBoard\<close>: the copy of \<^verbatim>\<open>currentBoard\<close> with \<^verbatim>\<open>'O'\<close> at
  \<^verbatim>\<open>move\<close> (a \<^verbatim>\<open>move\<close> that is no index writes no cell), \<^verbatim>\<open>setBoard\<close>, the winner or
  the turn of \<^verbatim>\<open>'X'\<close>.\<close>

definition makeComputerMove_resume :: "nat option \<Rightarrow> cell list \<Rightarrow> game \<Rightarrow> game" where
  "makeComputerMove_resume move currentBoard st =
     (let newBoard = (case move of Some i \<Rightarrow> setCell currentBoard i (Mark MarkO)
                      | None \<Rightarrow> currentBoard);
          gameWinner = evaluateWinner newBoard
      in settle gameWinner MarkX (st\<lparr>board := newBoard\<rparr>))"

fun resume :: "task \<Rightarrow> game \<Rightarrow> game" where
  "resume (UpdateTail newBoard player) st = updateGameState_resume newBoard player st"
| "resume (ClickTail index b player) st = handleClick_v1_resume index b player st"
| "resume (ComputerTail move currentBoard) st = makeComputerMove_resume move currentBoard st"

text \<open>\<^verbatim>\<open>updateGameState\<close> when nothing else is handled during its \<^verbatim>\<open>await\<close>: the rest
  runs on the state that the first part has left.\<close>

definition updateGameState :: "nat \<Rightarrow> game \<Rightarrow> game" where
  "updateGameState index st =
     (case updateGameState_begin index st of
        (st', None) \<Rightarrow> st'
      | (st', Some t) \<Rightarrow> resume t st')"

text \<open>\<^verbatim>\<open>handleClick\<close>: its test, then \<^verbatim>\<open>updateGameState\<close>; first up to the
  \<^verbatim>\<open>await\<close>, then with nothing handled during the \<^verbatim>\<open>await\<close>.\<close>

definition handleClick_begin :: "nat \<Rightarrow> game \<Rightarrow> game \<times> task option" where
  "handleClick_begin index st =
     (if gameMode st = Multi \<or> currentPlayer st = MarkX then updateGameState_begin index st
      else (st, None))"

definition handleClick :: "nat \<Rightarrow> game \<Rightarrow> game" where
  "handleClick index st =
     (if gameMode st = Multi \<or> currentPlayer st = MarkX then updateGameState index st else st)"

text \<open>\<^verbatim>\<open>handleClick\<close> of the earlier variant, which has no mode or turn test: up to
  the \<^verbatim>\<open>await\<close> it is the guard alone and sets nothing; then with nothing handled during
  the \<^verbatim>\<open>await\<close>.\<close>

definition handleClick_v1_begin :: "nat \<Rightarrow> game \<Rightarrow> task option" where
  "handleClick_v1_begin index st =
     (if truthy (cellAt (board st) index) \<or> winner st \<noteq> None then None
      else Some (ClickTail index (board st) (currentPlayer st)))"

definition handleClick_v1 :: "nat \<Rightarrow> game \<Rightarrow> game" where
  "handleClick_v1 index st =
     (case handleClick_v1_begin index st of None \<Rightarrow> st | Some t \<Rightarrow> resume t st)"

definition resetGame :: "game \<Rightarrow> game" where
  "resetGame st = st\<lparr>board := initialBoard, currentPlayer := MarkX, winner := None\<rparr>"

definition toggleGameMode :: "game \<Rightarrow> game" where
  "toggleGameMode st =
     resetGame (st\<lparr>gameMode := (if gameMode st = Single then Multi else Single)\<rparr>)"

definition toggleDifficulty :: "game \<Rightarrow> game" where
  "toggleDifficulty st =
     resetGame (st\<lparr>difficulty := (if difficulty st = Easy then Hard else Easy)\<rparr>)"

section \<open>Move selector\<close>

text \<open>
  The numbers of the search: integers, the two infinities that \<^verbatim>\<open>best\<close> starts from,
  and \<^verbatim>\<open>NaN\<close>, which a division of zero by zero would produce.  All finite values that
  occur are small integers, which JavaScript's doubles represent exactly.
\<close>

datatype jsnum = NaN | NegInf | Num int | PosInf

text \<open>\<^verbatim>\<open>a < b\<close> on numbers; every comparison with \<^verbatim>\<open>NaN\<close> is false.\<close>

fun jsLess :: "jsnum \<Rightarrow> jsnum \<Rightarrow> bool" where
  "jsLess NaN y = False"
| "jsLess x NaN = False"
| "jsLess PosInf y = False"
| "jsLess x NegInf = False"
| "jsLess NegInf y = True"
| "jsLess x PosInf = True"
| "jsLess (Num x) (Num y) = (x < y)"

text \<open>\<^verbatim>\<open>Math.max\<close> and \<^verbatim>\<open>Math.min\<close>, which return \<^verbatim>\<open>NaN\<close> when an argument is.\<close>

definition jsMax :: "jsnum \<Rightarrow> jsnum \<Rightarrow> jsnum" where
  "jsMax x y = (if x = NaN \<or> y = NaN then NaN else if jsLess x y then y else x)"

definition jsMin :: "jsnum \<Rightarrow> jsnum \<Rightarrow> jsnum" where
  "jsMin x y = (if x = NaN \<or> y = NaN then NaN else if jsLess y x then y else x)"

text \<open>The local \<^verbatim>\<open>evaluate\<close> of \<^verbatim>\<open>makeComputerMove\<close>.\<close>

fun evaluateFrom :: "(nat \<times> nat \<times> nat) list \<Rightarrow> cell list \<Rightarrow> int" where
  "evaluateFrom [] b = 0"
| "evaluateFrom (l # ls) b =
     (if lineMatch b l then (if cellAt b (fst l) = Mark MarkO then 10 else - 10)
      else evaluateFrom ls b)"

definition evaluate :: "cell list \<Rightarrow> int" where
  "evaluate b = evaluateFrom winningLines b"

text \<open>\<^verbatim>\<open>score - depth * (score / Math.abs(score))\<close>.  For a nonzero integer the quotient
  is exactly \<open>1\<close> or \<open>-1\<close>, which is what \<open>div\<close> gives; for zero it is \<^verbatim>\<open>NaN\<close>,
  and so is the whole expression.\<close>

definition shapedScore :: "int \<Rightarrow> int \<Rightarrow> jsnum" where
  "shapedScore score depth =
     (if abs score = 0 then NaN else Num (score - depth * (score div abs score)))"

text \<open>
  One iteration of the loop of \<^verbatim>\<open>minimax\<close> at cell \<open>i\<close>: the accumulator holds
  \<^verbatim>\<open>best\<close> and the scratch board, which the iteration marks, searches through
  \<open>recurse\<close>, and sets back to \<^verbatim>\<open>null\<close>.  \<open>None\<close> is a search that has not returned.
\<close>

definition tryCell ::
  "(cell list \<Rightarrow> (jsnum \<times> cell list) option) \<Rightarrow> bool \<Rightarrow> nat
     \<Rightarrow> (jsnum \<times> cell list) option \<Rightarrow> (jsnum \<times> cell list) option" where
  "tryCell recurse isMax i acc =
     (case acc of
        None \<Rightarrow> None
      | Some (best, b) \<Rightarrow>
          if truthy (cellAt b i) then Some (best, b)
          else
            (case recurse (setCell b i (Mark (if isMax then MarkO else MarkX))) of
               None \<Rightarrow> None
             | Some (value, b') \<Rightarrow>
                 Some (if isMax then jsMax best value else jsMin best value,
                       setCell b' i Null)))"

text \<open>
  \<^verbatim>\<open>minimax\<close>, with the board it leaves behind.  The first argument bounds the depth of
  the recursion, which the source leaves to the board filling up.
\<close>

fun minimax :: "nat \<Rightarrow> cell list \<Rightarrow> int \<Rightarrow> bool \<Rightarrow> (jsnum \<times> cell list) option" where
  "minimax 0 b depth isMax = None"
| "minimax (Suc n) b depth isMax =
     (let score = evaluate b in
      if score \<noteq> 0 then Some (shapedScore score depth, b)
      else if Null \<notin> set b then Some (Num 0, b)
      else fold (tryCell (\<lambda>b'. minimax n b' (depth + 1) (\<not> isMax)) isMax) [0..<9]
             (Some (if isMax then NegInf else PosInf, b)))"

text \<open>Ten levels are enough on every board (theorem \<open>minimax_returns\<close>), so this is the
  call \<^verbatim>\<open>minimax(b, depth, isMax)\<close>.\<close>

definition minimaxCall :: "cell list \<Rightarrow> int \<Rightarrow> bool \<Rightarrow> jsnum \<times> cell list" where
  "minimaxCall b depth isMax =
     (case minimax 10 b depth isMax of Some r \<Rightarrow> r | None \<Rightarrow> (NaN, b))"

text \<open>One iteration of the root loop of \<^verbatim>\<open>makeComputerMove\<close>; \<^verbatim>\<open>move\<close> is \<open>None\<close>
  while it is \<^verbatim>\<open>-1\<close>.\<close>

definition rootCell ::
  "nat \<Rightarrow> jsnum \<times> nat option \<times> cell list \<Rightarrow> jsnum \<times> nat option \<times> cell list" where
  "rootCell i acc =
     (case acc of (bestVal, move, currentBoard) \<Rightarrow>
        if truthy (cellAt currentBoard i) then (bestVal, move, currentBoard)
        else
          (case minimaxCall (setCell currentBoard i (Mark MarkO)) 0 False of
             (val, b') \<Rightarrow>
               if jsLess bestVal val then (val, Some i, setCell b' i Null)
               else (bestVal, move, setCell b' i Null)))"

text \<open>The indices that hold \<^verbatim>\<open>null\<close>, as \<^verbatim>\<open>map\<close> and \<^verbatim>\<open>filter\<close> collect them.\<close>

definition available :: "cell list \<Rightarrow> nat list" where
  "available currentBoard = filter (\<lambda>i. currentBoard ! i = Null) [0..<length currentBoard]"

text \<open>
  The part of \<^verbatim>\<open>makeComputerMove\<close> that chooses \<^verbatim>\<open>move\<close>, with the board as the search
  leaves it.  \<open>pick\<close> stands for \<^verbatim>\<open>Math.floor(Math.random() * available.length)\<close>; a
  \<^verbatim>\<open>move\<close> of \<^verbatim>\<open>-1\<close> or \<^verbatim>\<open>undefined\<close> is \<open>None\<close>.
\<close>

definition selectMove :: "level \<Rightarrow> nat \<Rightarrow> cell list \<Rightarrow> nat option \<times> cell list" where
  "selectMove d pick currentBoard =
     (if d = Hard then
        (case fold rootCell [0..<9] (NegInf, None, currentBoard) of
           (bestVal, move, b) \<Rightarrow> (move, b))
      else
        (if pick < length (available currentBoard)
         then Some (available currentBoard ! pick) else None,
         currentBoard))"

text \<open>\<^verbatim>\<open>makeComputerMove\<close> up to its \<^verbatim>\<open>await\<close>: the choice of \<^verbatim>\<open>move\<close>, which sets
  nothing.  The rest holds \<^verbatim>\<open>move\<close> and \<^verbatim>\<open>currentBoard\<close> as the search has left it.\<close>

definition makeComputerMove_begin :: "nat \<Rightarrow> cell list \<Rightarrow> game \<Rightarrow> task" where
  "makeComputerMove_begin pick currentBoard st =
     (case selectMove (difficulty st) pick currentBoard of
        (move, b) \<Rightarrow> ComputerTail move b)"

text \<open>\<^verbatim>\<open>makeComputerMove\<close> when nothing else is handled during its \<^verbatim>\<open>await\<close>.\<close>

definition makeComputerMove :: "nat \<Rightarrow> cell list \<Rightarrow> game \<Rightarrow> game" where
  "makeComputerMove pick currentBoard st =
     resume (makeComputerMove_begin pick currentBoard st) st"

text \<open>\<^verbatim>\<open>makeComputerMove\<close> of the earlier variant, which has no \<^verbatim>\<open>await\<close>: a random
  empty cell, and nothing at all when there is none.\<close>

definition makeComputerMove_v1 :: "nat \<Rightarrow> cell list \<Rightarrow> game \<Rightarrow> game" where
  "makeComputerMove_v1 pick currentBoard st =
     (let emptySquares = available currentBoard in
      if length emptySquares > 0 then
        let newBoard =
              (if pick < length emptySquares
               then setCell currentBoard (emptySquares ! pick) (Mark MarkO)
               else currentBoard);
            gameWinner = checkWinner newBoard
        in settle gameWinner MarkX (st\<lparr>board := newBoard\<rparr>)
      else st)"

section \<open>Events\<close>

text \<open>The condition under which the effect arms the timer of the computer's move; both
  variants test the same three things.\<close>

definition computerTurn :: "game \<Rightarrow> bool" where
  "computerTurn st = (gameMode st = Single \<and> currentPlayer st = MarkO \<and> winner st = None)"

text \<open>
  What the user and the timer can do.  A press carries the index of a rendered cell
  (\<^verbatim>\<open>board.map\<close> renders one button per cell); the difficulty button is rendered in
  single-player mode only.
\<close>

datatype event = Press nat | Timeout nat | PressReset | PressMode | PressDifficulty

subsection \<open>Events handled one after the other\<close>

text \<open>
  An event whose handler has finished before anything else is handled: the press with
  its rest run at once, the timer's callback likewise.  With no rest pending the timer
  is armed exactly while \<open>computerTurn\<close> holds.
\<close>

fun fire :: "event \<Rightarrow> game \<Rightarrow> game" where
  "fire (Press i) st = (if i < length (board st) then handleClick i st else st)"
| "fire (Timeout pick) st =
     (if computerTurn st then makeComputerMove pick (board st) st else st)"
| "fire PressReset st = resetGame st"
| "fire PressMode st = toggleGameMode st"
| "fire PressDifficulty st = (if gameMode st = Single then toggleDifficulty st else st)"

text \<open>The earlier variant: its cells call \<^verbatim>\<open>handleClick\<close> only when empty and before the
  game has ended, and it has no difficulty button.\<close>

fun fire_v1 :: "event \<Rightarrow> game \<Rightarrow> game" where
  "fire_v1 (Press i) st =
     (if i < length (board st) \<and> \<not> truthy (cellAt (board st) i) \<and> winner st = None
      then handleClick_v1 i st else st)"
| "fire_v1 (Timeout pick) st =
     (if computerTurn st then makeComputerMove_v1 pick (board st) st else st)"
| "fire_v1 PressReset st = resetGame st"
| "fire_v1 PressMode st = toggleGameMode st"
| "fire_v1 PressDifficulty st = st"

definition run :: "event list \<Rightarrow> game \<Rightarrow> game" where
  "run es st = fold fire es st"

definition run_v1 :: "event list \<Rightarrow> game \<Rightarrow> game" where
  "run_v1 es st = fold fire_v1 es st"

subsection \<open>The component with its pending handlers\<close>

text \<open>
  The component as it runs: the committed state \<open>now\<close>, the rests of the handlers that
  are waiting for their sound calls, and whether the timer of the computer's move is
  armed.  The effect runs after a render in which one of \<^verbatim>\<open>currentPlayer\<close>,
  \<^verbatim>\<open>gameMode\<close>, \<^verbatim>\<open>board\<close>, \<^verbatim>\<open>winner\<close> or \<^verbatim>\<open>makeComputerMove\<close> (which changes with
  \<^verbatim>\<open>difficulty\<close>) has changed; its cleanup clears the timer and it arms a new one when
  \<open>computerTurn\<close> holds.  A timer that has fired stays away until then.
\<close>

record sys =
  now :: game
  pending :: "task list"
  timer :: bool

definition deps :: "game \<Rightarrow> cell list \<times> mark \<times> outcome option \<times> mode \<times> level" where
  "deps st = (board st, currentPlayer st, winner st, gameMode st, difficulty st)"

definition commit :: "game \<Rightarrow> sys \<Rightarrow> sys" where
  "commit st' s =
     s\<lparr>now := st', timer := (if deps st' = deps (now s) then timer s else computerTurn st')\<rparr>"

definition await :: "task option \<Rightarrow> sys \<Rightarrow> sys" where
  "await t s = (case t of None \<Rightarrow> s | Some x \<Rightarrow> s\<lparr>pending := pending s @ [x]\<rparr>)"

text \<open>The component after its first render.\<close>

definition start :: "game \<Rightarrow> sys" where
  "start st = \<lparr>now = st, pending = [], timer = computerTurn st\<rparr>"

text \<open>
  A step of the component: an event arrives and its handler runs up to its \<^verbatim>\<open>await\<close>,
  or the \<open>k\<close>-th pending rest runs.  The timer's callback is
  \<^verbatim>\<open>makeComputerMove(board)\<close> on the committed board; on the boards of the game the
  search leaves that array as it found it (lemma \<open>selectMove_wf\<close>).
\<close>

datatype action = Do event | Resume nat

fun act :: "action \<Rightarrow> sys \<Rightarrow> sys" where
  "act (Do (Press i)) s =
     (if i < length (board (now s)) then
        (case handleClick_begin i (now s) of (st', t) \<Rightarrow> await t (commit st' s))
      else s)"
| "act (Do (Timeout pick)) s =
     (if timer s then
        await (Some (makeComputerMove_begin pick (board (now s)) (now s))) (s\<lparr>timer := False\<rparr>)
      else s)"
| "act (Do PressReset) s = commit (resetGame (now s)) s"
| "act (Do PressMode) s = commit (toggleGameMode (now s)) s"
| "act (Do PressDifficulty) s =
     (if gameMode (now s) = Single then commit (toggleDifficulty (now s)) s else s)"
| "act (Resume k) s =
     (if k < length (pending s) then
        commit (resume (pending s ! k) (now s))
          (s\<lparr>pending := take k (pending s) @ drop (Suc k) (pending s)\<rparr>)
      else s)"

text \<open>The earlier variant, whose \<^verbatim>\<open>makeComputerMove\<close> runs in one piece.\<close>

fun act_v1 :: "action \<Rightarrow> sys \<Rightarrow> sys" where
  "act_v1 (Do (Press i)) s =
     (if i < length (board (now s)) \<and> \<not> truthy (cellAt (board (now s)) i)
         \<and> winner (now s) = None
      then await (handleClick_v1_begin i (now s)) s else s)"
| "act_v1 (Do (Timeout pick)) s =
     (if timer s then
        commit (makeComputerMove_v1 pick (board (now s)) (now s)) (s\<lparr>timer := False\<rparr>)
      else s)"
| "act_v1 (Do PressReset) s = commit (resetGame (now s)) s"
| "act_v1 (Do PressMode) s = commit (toggleGameMode (now s)) s"
| "act_v1 (Do PressDifficulty) s = s"
| "act_v1 (Resume k) s =
     (if k < length (pending s) then
        commit (resume (pending s ! k) (now s))
          (s\<lparr>pending := take k (pending s) @ drop (Suc k) (pending s)\<rparr>)
      else s)"

definition steps :: "action list \<Rightarrow> sys \<Rightarrow> sys" where
  "steps as s = fold act as s"

definition steps_v1 :: "action list \<Rightarrow> sys \<Rightarrow> sys" where
  "steps_v1 as s = fold act_v1 as s"

text \<open>An event with nothing handled during its handler's \<^verbatim>\<open>await\<close>: the handler's
  first part, and then its rest if it has left one.\<close>

definition whole :: "event \<Rightarrow> sys \<Rightarrow> sys" where
  "whole e s = act (Resume 0) (act (Do e) s)"

definition wholes :: "event list \<Rightarrow> sys \<Rightarrow> sys" where
  "wholes es s = fold whole es s"

section \<open>Notions used in the statements\<close>

text \<open>
  The outcome as the specification words it: the lines in the order rows, columns,
  diagonals; the first of them whose three cells hold one and the same mark gives the
  winner; with no such line the game is drawn when every cell holds a mark and in
  progress (\<open>None\<close>) otherwise.
\<close>

definition rows :: "(nat \<times> nat \<times> nat) list" where
  "rows = [(0, 1, 2), (3, 4, 5), (6, 7, 8)]"

definition columns :: "(nat \<times> nat \<times> nat) list" where
  "columns = [(0, 3, 6), (1, 4, 7), (2, 5, 8)]"

definition diagonals :: "(nat \<times> nat \<times> nat) list" where
  "diagonals = [(0, 4, 8), (2, 4, 6)]"

definition lineOwner :: "cell list \<Rightarrow> nat \<times> nat \<times> nat \<Rightarrow> mark option" where
  "lineOwner squares l =
     (case l of (a, b, c) \<Rightarrow>
        (case cellAt squares a of
           Mark m \<Rightarrow>
             if cellAt squares b = Mark m \<and> cellAt squares c = Mark m then Some m else None
         | _ \<Rightarrow> None))"

definition evaluateOutcome_spec :: "cell list \<Rightarrow> outcome option" where
  "evaluateOutcome_spec squares =
     (case find (\<lambda>l. lineOwner squares l \<noteq> None) (rows @ columns @ diagonals) of
        Some l \<Rightarrow> map_option Win (lineOwner squares l)
      | None \<Rightarrow> if list_all truthy squares then Some Draw else None)"

text \<open>A state in which the centre cell is taken, for the examples.\<close>

definition exampleGame :: game where
  "exampleGame =
     initialGame\<lparr>board := setCell initialBoard 4 (Mark MarkX), currentPlayer := MarkO\<rparr>"

text \<open>A state in which \<^verbatim>\<open>'O'\<close> has won with the top row.\<close>

definition exampleWon :: game where
  "exampleWon =
     initialGame\<lparr>board := [Mark MarkO, Mark MarkO, Mark MarkO,
                            Mark MarkX, Mark MarkX, Null,
                            Mark MarkX, Null, Null],
                  currentPlayer := MarkO, winner := Some (Win MarkO),
                  scores := (\<lambda>m. if m = MarkO then 1 else 0)\<rparr>"

text \<open>The events that place a mark, as opposed to those that clear the board.\<close>

fun isPlay :: "event \<Rightarrow> bool" where
  "isPlay (Press i) = True"
| "isPlay (Timeout pick) = True"
| "isPlay PressReset = False"
| "isPlay PressMode = False"
| "isPlay PressDifficulty = False"

text \<open>A state one move before a drawn game.\<close>

definition exampleLast :: game where
  "exampleLast =
     initialGame\<lparr>board := [Mark MarkX, Mark MarkO, Mark MarkX,
                            Mark MarkX, Mark MarkO, Mark MarkO,
                            Mark MarkO, Mark MarkX, Null]\<rparr>"

text \<open>
  What the search leaves of a board: every cell as it was, except that a cell that read
  \<^verbatim>\<open>undefined\<close> may have become \<^verbatim>\<open>null\<close>; a board of nine or more cells keeps
  its length.
\<close>

definition restored :: "cell list \<Rightarrow> cell list \<Rightarrow> bool" where
  "restored b b' =
     ((\<forall>j. cellAt b' j = cellAt b j \<or> (cellAt b j = Undefined \<and> cellAt b' j = Null))
      \<and> (9 \<le> length b \<longrightarrow> length b' = length b))"

text \<open>The number of cells that the loops of the search still find falsy.\<close>

definition falsyCount :: "cell list \<Rightarrow> nat" where
  "falsyCount b = card {j. j < 9 \<and> \<not> truthy (cellAt b j)}"

text \<open>The value that the root loop of \<^verbatim>\<open>makeComputerMove\<close> computes for cell \<open>i\<close>.\<close>

definition rootValue :: "cell list \<Rightarrow> nat \<Rightarrow> jsnum" where
  "rootValue b i = fst (minimaxCall (setCell b i (Mark MarkO)) 0 False)"

text \<open>
  Whether the computer, playing \<^verbatim>\<open>'O'\<close>, can avoid defeat from a board: with a line on
  the board it must be its own; on a full board the game is drawn; otherwise some move of
  its own must keep it safe when it is to move (\<open>isMax\<close>), and every move of the
  opponent must when the opponent is.  The first argument bounds the depth, as in
  \<open>minimax\<close>; the cells are tried centre first, then corners, then edges.
\<close>

fun anyCell :: "(nat \<Rightarrow> bool) \<Rightarrow> nat list \<Rightarrow> bool" where
  "anyCell p [] = False"
| "anyCell p (i # is) = (if p i then True else anyCell p is)"

fun allCell :: "(nat \<Rightarrow> bool) \<Rightarrow> nat list \<Rightarrow> bool" where
  "allCell p [] = True"
| "allCell p (i # is) = (if p i then allCell p is else False)"

definition cellOrder :: "nat list" where
  "cellOrder = [4, 0, 2, 6, 8, 1, 3, 5, 7]"

fun safe :: "nat \<Rightarrow> bool \<Rightarrow> cell list \<Rightarrow> bool" where
  "safe 0 isMax b = True"
| "safe (Suc n) isMax b =
     (if evaluate b \<noteq> 0 then evaluate b > 0
      else if Null \<notin> set b then True
      else if isMax then
        anyCell (\<lambda>i. if truthy (cellAt b i) then False
                     else safe n False (setCell b i (Mark MarkO))) cellOrder
      else
        allCell (\<lambda>i. if truthy (cellAt b i) then True
                     else safe n True (setCell b i (Mark MarkX))) cellOrder)"

text \<open>A number that is not negative; \<^verbatim>\<open>NaN\<close> is not.\<close>

fun nonneg :: "jsnum \<Rightarrow> bool" where
  "nonneg NaN = False"
| "nonneg NegInf = False"
| "nonneg (Num x) = (0 \<le> x)"
| "nonneg PosInf = True"

text \<open>The loop of \<^verbatim>\<open>minimax\<close> without the scratch board: \<^verbatim>\<open>best\<close> folded over the
  values \<open>vals i\<close> of the falsy cells \<open>i\<close>.\<close>

definition bestOver :: "bool \<Rightarrow> cell list \<Rightarrow> (nat \<Rightarrow> jsnum) \<Rightarrow> nat list \<Rightarrow> jsnum \<Rightarrow> jsnum" where
  "bestOver isMax b vals is best0 =
     fold (\<lambda>i best. if truthy (cellAt b i) then best
                     else if isMax then jsMax best (vals i) else jsMin best (vals i))
       is best0"

text \<open>The root loop without the scratch board.\<close>

definition pickBest :: "cell list \<Rightarrow> nat list \<Rightarrow> jsnum \<times> nat option \<Rightarrow> jsnum \<times> nat option" where
  "pickBest b is acc =
     fold (\<lambda>i (bestVal, move). if truthy (cellAt b i) then (bestVal, move)
                               else if jsLess bestVal (rootValue b i) then (rootValue b i, Some i)
                               else (bestVal, move))
       is acc"

fun isNum :: "jsnum \<Rightarrow> bool" where
  "isNum (Num x) = True"
| "isNum NaN = False"
| "isNum NegInf = False"
| "isNum PosInf = False"

text \<open>The two boards of the specification's example, in which \<^verbatim>\<open>'O'\<close> can complete a
  row: the middle row at cell 5, and the top row at cell 2.\<close>

definition exampleMiddle :: "cell list" where
  "exampleMiddle = [Mark MarkX, Mark MarkX, Null,
                    Mark MarkO, Mark MarkO, Null,
                    Null, Null, Null]"

definition exampleTop :: "cell list" where
  "exampleTop = [Mark MarkO, Mark MarkO, Null,
                 Mark MarkX, Mark MarkX, Null,
                 Null, Null, Null]"

text \<open>
  A state after the legal alternating moves \<^verbatim>\<open>'X'\<close> at 0, \<^verbatim>\<open>'O'\<close> at 1, \<^verbatim>\<open>'X'\<close> at 4,
  with the computer to move, in single-player mode at difficulty \<^verbatim>\<open>'hard'\<close>.
\<close>

definition exampleLost :: game where
  "exampleLost =
     initialGame\<lparr>board := [Mark MarkX, Mark MarkO, Null,
                            Null, Mark MarkX, Null,
                            Null, Null, Null],
                  currentPlayer := MarkO\<rparr>"

text \<open>
  What holds in every state of a game against the search: the board is one of the game,
  and in single-player mode at difficulty \<^verbatim>\<open>'hard'\<close> the opponent has not won and, while
  the game is on, the computer can still avoid defeat.
\<close>

definition hardInvariant :: "game \<Rightarrow> bool" where
  "hardInvariant st =
     (wfBoard (board st)
      \<and> (gameMode st = Single \<and> difficulty st = Hard \<longrightarrow>
           winner st \<noteq> Some (Win MarkX)
           \<and> (winner st = None \<longrightarrow>
                evaluateWinner (board st) = None
                \<and> safe 10 (currentPlayer st = MarkO) (board st))))"

text \<open>A state of the component with no rest pending and the timer as the effect has
  left it.\<close>

definition quiet :: "sys \<Rightarrow> bool" where
  "quiet s = (pending s = [] \<and> timer s = computerTurn (now s))"

text \<open>A state late in a game in single-player mode at difficulty \<^verbatim>\<open>'hard'\<close>, in which
  the computer is to move and can complete the middle column.\<close>

definition exampleLate :: game where
  "exampleLate =
     initialGame\<lparr>board := [Mark MarkX, Mark MarkO, Mark MarkX,
                            Mark MarkX, Mark MarkO, Null,
                            Null, Null, Null],
                  currentPlayer := MarkO\<rparr>"

text \<open>A whole game against the search, from the centre.\<close>

definition exampleMoves :: "event list" where
  "exampleMoves =
     [Press 4, Timeout 0, Press 8, Timeout 0, Press 1, Timeout 0, Press 6, Timeout 0, Press 5]"

text \<open>
  Steps of the component that lead from the initial state to the board of \<open>exampleLost\<close>
  in single-player mode at difficulty \<^verbatim>\<open>'hard'\<close>: at difficulty \<^verbatim>\<open>'easy'\<close> the opponent
  takes cell 0 and the random choice cell 1; the difficulty button is pressed while that
  move's sound is awaited, so that the move lands on the cleared board; the opponent
  takes cell 4.
\<close>

definition reachLost :: "action list" where
  "reachLost =
     [Do PressDifficulty, Do (Press 0), Resume 0, Do (Timeout 0), Do PressDifficulty, Resume 0,
      Do (Press 4), Resume 0]"

text \<open>
  Steps of the component in which a second cell is pressed while the first press awaits
  its sound: from the initial state, cells 0 and 4.
\<close>

definition overlapTurn :: "action list" where
  "overlapTurn = [Do (Press 0), Do (Press 4), Resume 0, Resume 0]"

text \<open>
  Steps in two-player mode: \<^verbatim>\<open>'X'\<close> takes 0 and 3, \<^verbatim>\<open>'O'\<close> takes 1 and 4, each
  press finished before the next; then cells 6 and 2 are pressed one during the other's
  \<^verbatim>\<open>await\<close>.
\<close>

definition overlapWin :: "action list" where
  "overlapWin =
     [Do PressMode, Do (Press 0), Resume 0, Do (Press 1), Resume 0, Do (Press 3), Resume 0,
      Do (Press 4), Resume 0, Do (Press 6), Do (Press 2), Resume 0, Resume 0]"

text \<open>
  Steps at difficulty \<^verbatim>\<open>'easy'\<close> in which the reset button is pressed while the
  computer's move awaits its sound.
\<close>

definition overlapReset :: "action list" where
  "overlapReset =
     [Do PressDifficulty, Do (Press 4), Resume 0, Do (Timeout 0), Do PressReset, Resume 0]"

section \<open>Properties\<close>

subsection \<open>Cells and the shared tail\<close>

text \<open>The handlers with nothing handled during their \<^verbatim>\<open>await\<close>, written out.\<close>

lemma updateGameState_eq:
  "updateGameState index st =
     (if truthy (cellAt (board st) index) \<or> winner st \<noteq> None then st
      else
        let newBoard = setCell (board st) index (Mark (currentPlayer st));
            gameWinner = evaluateWinner newBoard
        in settle gameWinner (flipMark (currentPlayer st)) (st\<lparr>board := newBoard\<rparr>))"
  by (simp add: updateGameState_def updateGameState_begin_def updateGameState_resume_def Let_def)

lemma handleClick_v1_eq:
  "handleClick_v1 index st =
     (if truthy (cellAt (board st) index) \<or> winner st \<noteq> None then st
      else
        let newBoard = setCell (board st) index (Mark (currentPlayer st));
            gameWinner = checkWinner newBoard
        in settle gameWinner (flipMark (currentPlayer st)) (st\<lparr>board := newBoard\<rparr>))"
  by (simp add: handleClick_v1_def handleClick_v1_begin_def handleClick_v1_resume_def Let_def)

lemma makeComputerMove_eq:
  "makeComputerMove pick currentBoard st =
     (case selectMove (difficulty st) pick currentBoard of
        (move, b) \<Rightarrow>
          let newBoard = (case move of Some i \<Rightarrow> setCell b i (Mark MarkO) | None \<Rightarrow> b);
              gameWinner = evaluateWinner newBoard
          in settle gameWinner MarkX (st\<lparr>board := newBoard\<rparr>))"
  by (simp add: makeComputerMove_def makeComputerMove_begin_def makeComputerMove_resume_def
      Let_def split: prod.splits)

lemma cellAt_setCell: "cellAt (setCell b i v) j = (if j = i then v else cellAt b j)"
  by (auto simp: cellAt_def setCell_def nth_append)

lemma length_setCell: "i < length b \<Longrightarrow> length (setCell b i v) = length b"
  by (simp add: setCell_def)

lemma setCell_update: "i < length b \<Longrightarrow> setCell b i v = b[i := v]"
  by (simp add: setCell_def)

lemma winner_settle:
  "winner (settle w nxt st) = (case w of None \<Rightarrow> winner st | Some r \<Rightarrow> Some r)"
  by (simp add: settle_def split: option.splits outcome.splits)

lemma scores_settle:
  "scores (settle w nxt st) =
     (case w of Some (Win m) \<Rightarrow> (scores st)(m := scores st m + 1) | _ \<Rightarrow> scores st)"
  by (simp add: settle_def split: option.splits outcome.splits)

lemma currentPlayer_settle:
  "currentPlayer (settle w nxt st) = (case w of None \<Rightarrow> nxt | Some r \<Rightarrow> currentPlayer st)"
  by (simp add: settle_def split: option.splits outcome.splits)

lemma board_settle: "board (settle w nxt st) = board st"
  by (simp add: settle_def split: option.splits outcome.splits)

lemma gameMode_settle: "gameMode (settle w nxt st) = gameMode st"
  by (simp add: settle_def split: option.splits outcome.splits)

lemma difficulty_settle: "difficulty (settle w nxt st) = difficulty st"
  by (simp add: settle_def split: option.splits outcome.splits)

lemmas settle_simps = winner_settle scores_settle currentPlayer_settle board_settle
  gameMode_settle difficulty_settle

subsection \<open>The outcome of a board\<close>

lemma lineMatch_lineOwner: "lineMatch squares l \<longleftrightarrow> lineOwner squares l \<noteq> None"
  by (cases l; cases "cellAt squares (fst l)")
     (auto simp: lineMatch_def lineOwner_def)

lemma returnCell_lineOwner:
  "lineMatch squares l \<Longrightarrow> returnCell (cellAt squares (fst l)) = map_option Win (lineOwner squares l)"
  by (cases l; cases "cellAt squares (fst l)")
     (auto simp: lineMatch_def lineOwner_def)

lemma evaluateWinnerFrom_find:
  "evaluateWinnerFrom ls squares =
     (case find (\<lambda>l. lineOwner squares l \<noteq> None) ls of
        Some l \<Rightarrow> map_option Win (lineOwner squares l)
      | None \<Rightarrow> if Null \<in> set squares then None else Some Draw)"
proof (induction ls)
  case Nil
  show ?case by simp
next
  case (Cons l ls)
  show ?case
  proof (cases "lineMatch squares l")
    case True
    then have "lineOwner squares l \<noteq> None" by (simp add: lineMatch_lineOwner)
    with True show ?thesis by (simp add: returnCell_lineOwner)
  next
    case False
    then have "lineOwner squares l = None" by (simp add: lineMatch_lineOwner)
    with False Cons.IH show ?thesis by simp
  qed
qed

lemma checkWinnerFrom_evaluateWinnerFrom:
  "checkWinnerFrom ls squares = evaluateWinnerFrom ls squares"
  by (induction ls) (auto simp: list_all_iff)

lemma checkWinner_evaluateWinner: "checkWinner squares = evaluateWinner squares"
  by (simp add: checkWinner_def evaluateWinner_def checkWinnerFrom_evaluateWinnerFrom)

lemma winningLines_order: "winningLines = rows @ columns @ diagonals"
  by (simp add: winningLines_def rows_def columns_def diagonals_def)

lemma wfBoard_no_Undefined: "wfBoard b \<Longrightarrow> Undefined \<notin> set b"
  by (simp add: wfBoard_def)

lemma wfBoard_length: "wfBoard b \<Longrightarrow> length b = 9"
  by (simp add: wfBoard_def)

lemma wfBoard_all_marks:
  assumes "wfBoard squares"
  shows "list_all truthy squares \<longleftrightarrow> Null \<notin> set squares"
proof -
  have "truthy c \<longleftrightarrow> c \<noteq> Null" if "c \<in> set squares" for c
  proof -
    from that wfBoard_no_Undefined [OF assms] have "c \<noteq> Undefined" by auto
    then show ?thesis by (cases c) simp_all
  qed
  then show ?thesis by (auto simp: list_all_iff)
qed

text \<open>
  C2.  On every nine-cell board \<^verbatim>\<open>evaluateWinner\<close> (and \<^verbatim>\<open>checkWinner\<close> of the earlier
  variant) returns the mark of the first line, in the order rows, columns, diagonals,
  whose three cells hold the same mark; with no such line it returns the draw exactly
  when all cells are marked, and \<^verbatim>\<open>null\<close> otherwise.  A board with a line of three equal
  marks is never reported as in progress.
\<close>

theorem evaluateWinner_first_line:
  assumes "wfBoard squares"
  shows "evaluateWinner squares = evaluateOutcome_spec squares
       \<and> checkWinner squares = evaluateOutcome_spec squares
       \<and> ((\<exists>l \<in> set winningLines. lineOwner squares l \<noteq> None) \<longrightarrow>
            evaluateWinner squares \<noteq> None \<and> checkWinner squares \<noteq> None)"
proof -
  have eq: "evaluateWinner squares = evaluateOutcome_spec squares"
    using assms
    by (simp add: evaluateWinner_def evaluateOutcome_spec_def evaluateWinnerFrom_find
        winningLines_order wfBoard_all_marks)
  have won: "evaluateWinner squares \<noteq> None"
    if "\<exists>l \<in> set winningLines. lineOwner squares l \<noteq> None"
  proof -
    from that obtain l where "find (\<lambda>l. lineOwner squares l \<noteq> None) winningLines = Some l"
      by (cases "find (\<lambda>l. lineOwner squares l \<noteq> None) winningLines")
         (auto simp: find_None_iff)
    moreover from this have "lineOwner squares l \<noteq> None"
      by (auto simp: find_Some_iff)
    ultimately show ?thesis
      by (auto simp: evaluateWinner_def evaluateWinnerFrom_find)
  qed
  show ?thesis
    using eq won by (simp add: checkWinner_evaluateWinner)
qed

theorem evaluateWinner_first_line_witness:
  "wfBoard (board exampleWon)
   \<and> evaluateWinner (board exampleWon) = evaluateOutcome_spec (board exampleWon)
   \<and> checkWinner (board exampleWon) = evaluateOutcome_spec (board exampleWon)
   \<and> (\<exists>l \<in> set winningLines. lineOwner (board exampleWon) l \<noteq> None)
   \<and> evaluateWinner (board exampleWon) \<noteq> None
   \<and> checkWinner (board exampleWon) \<noteq> None"
proof -
  have h: "wfBoard (board exampleWon)"
    by (simp add: wfBoard_def exampleWon_def)
  have l: "\<exists>l \<in> set winningLines. lineOwner (board exampleWon) l \<noteq> None"
    by (simp add: winningLines_def lineOwner_def cellAt_def exampleWon_def)
  from evaluateWinner_first_line [OF h] h l show ?thesis by blast
qed

subsection \<open>Rejected moves\<close>

text \<open>
  C3.  A move on an occupied cell, or after the game has ended, changes nothing: the
  whole state (board, turn, outcome, scores) is returned as it was, and the handler has
  no other result through which it could signal a failure.  The guard comes before the
  handler's \<^verbatim>\<open>await\<close>, so that the handler sets nothing and leaves no rest behind.
\<close>

theorem occupied_or_terminal_noop:
  "truthy (cellAt (board st) index) \<or> winner st \<noteq> None \<Longrightarrow>
     updateGameState index st = st \<and> handleClick index st = st
     \<and> handleClick_v1 index st = st
     \<and> fire (Press index) st = st \<and> fire_v1 (Press index) st = st
     \<and> updateGameState_begin index st = (st, None)
     \<and> handleClick_begin index st = (st, None)
     \<and> handleClick_v1_begin index st = None"
  by (auto simp: updateGameState_eq handleClick_def handleClick_v1_eq
      updateGameState_begin_def handleClick_begin_def handleClick_v1_begin_def)

theorem occupied_or_terminal_noop_witness:
  "(truthy (cellAt (board exampleGame) 4) \<or> winner exampleGame \<noteq> None)
   \<and> (updateGameState 4 exampleGame = exampleGame \<and> handleClick 4 exampleGame = exampleGame
     \<and> handleClick_v1 4 exampleGame = exampleGame
     \<and> fire (Press 4) exampleGame = exampleGame \<and> fire_v1 (Press 4) exampleGame = exampleGame
     \<and> updateGameState_begin 4 exampleGame = (exampleGame, None)
     \<and> handleClick_begin 4 exampleGame = (exampleGame, None)
     \<and> handleClick_v1_begin 4 exampleGame = None)"
proof -
  have h: "truthy (cellAt (board exampleGame) 4) \<or> winner exampleGame \<noteq> None"
    by (simp add: exampleGame_def initialGame_def initialBoard_def BOARD_SIZE_def cellAt_setCell)
  from h occupied_or_terminal_noop [OF h] show ?thesis by (rule conjI)
qed

subsection \<open>Turn and scores\<close>

lemma makeComputerMove_settle:
  "\<exists>w b. makeComputerMove pick cb st = settle w MarkX (st\<lparr>board := b\<rparr>)"
  by (auto simp: makeComputerMove_eq Let_def split: prod.splits)

lemma makeComputerMove_v1_settle:
  "available cb \<noteq> [] \<Longrightarrow> \<exists>w b. makeComputerMove_v1 pick cb st = settle w MarkX (st\<lparr>board := b\<rparr>)"
  unfolding makeComputerMove_v1_def Let_def by (simp del: split_paired_Ex) blast

lemma fire_terminal: "winner st \<noteq> None \<Longrightarrow> isPlay e \<Longrightarrow> fire e st = st"
  by (cases e) (auto simp: handleClick_def updateGameState_eq computerTurn_def)

lemma fire_v1_terminal: "winner st \<noteq> None \<Longrightarrow> isPlay e \<Longrightarrow> fire_v1 e st = st"
  by (cases e) (auto simp: computerTurn_def)

lemma run_terminal: "winner st \<noteq> None \<Longrightarrow> \<forall>e \<in> set es. isPlay e \<Longrightarrow> run es st = st"
  unfolding run_def by (induction es) (simp_all add: fire_terminal)

lemma run_v1_terminal: "winner st \<noteq> None \<Longrightarrow> \<forall>e \<in> set es. isPlay e \<Longrightarrow> run_v1 es st = st"
  unfolding run_v1_def by (induction es) (simp_all add: fire_v1_terminal)

lemma flipMark_neq: "flipMark p \<noteq> p"
  by (cases p) (simp_all add: flipMark_def)

text \<open>
  With every handler finished before the next event is handled: a move that is applied
  and leaves the game in progress passes the turn to the other mark (a click flips it,
  the computer's move hands it to \<^verbatim>\<open>'X'\<close>); once the game has ended no click and no
  timer changes the turn or the outcome, however many of them follow; \<^verbatim>\<open>resetGame\<close>
  gives the turn to \<^verbatim>\<open>'X'\<close>.
\<close>

lemma turn_alternates:
  "(\<not> truthy (cellAt (board st) i) \<and> winner st = None
      \<and> winner (updateGameState i st) = None \<longrightarrow>
        currentPlayer (updateGameState i st) = flipMark (currentPlayer st)
      \<and> currentPlayer (updateGameState i st) \<noteq> currentPlayer st)
   \<and> (\<not> truthy (cellAt (board st) i) \<and> winner st = None
      \<and> winner (handleClick_v1 i st) = None \<longrightarrow>
        currentPlayer (handleClick_v1 i st) = flipMark (currentPlayer st)
      \<and> currentPlayer (handleClick_v1 i st) \<noteq> currentPlayer st)
   \<and> (computerTurn st \<and> winner (fire (Timeout pick) st) = None \<longrightarrow>
        currentPlayer (fire (Timeout pick) st) = MarkX
      \<and> currentPlayer (fire (Timeout pick) st) \<noteq> currentPlayer st)
   \<and> (computerTurn st \<and> available (board st) \<noteq> []
      \<and> winner (fire_v1 (Timeout pick) st) = None \<longrightarrow>
        currentPlayer (fire_v1 (Timeout pick) st) = MarkX
      \<and> currentPlayer (fire_v1 (Timeout pick) st) \<noteq> currentPlayer st)
   \<and> (winner st \<noteq> None \<and> (\<forall>e \<in> set es. isPlay e) \<longrightarrow>
        currentPlayer (run es st) = currentPlayer st \<and> winner (run es st) = winner st
      \<and> currentPlayer (run_v1 es st) = currentPlayer st \<and> winner (run_v1 es st) = winner st)
   \<and> currentPlayer (resetGame st) = MarkX"
proof -
  have a: "currentPlayer (updateGameState i st) = flipMark (currentPlayer st)"
    if "\<not> truthy (cellAt (board st) i)" "winner st = None" "winner (updateGameState i st) = None"
    using that
    by (auto simp: updateGameState_eq Let_def settle_simps split: option.splits)
  have b: "currentPlayer (handleClick_v1 i st) = flipMark (currentPlayer st)"
    if "\<not> truthy (cellAt (board st) i)" "winner st = None" "winner (handleClick_v1 i st) = None"
    using that
    by (auto simp: handleClick_v1_eq Let_def settle_simps split: option.splits)
  have c: "currentPlayer (fire (Timeout pick) st) = MarkX"
    if "computerTurn st" "winner (fire (Timeout pick) st) = None"
  proof -
    obtain w b where "makeComputerMove pick (board st) st = settle w MarkX (st\<lparr>board := b\<rparr>)"
      using makeComputerMove_settle by blast
    with that show ?thesis
      by (auto simp: settle_simps split: option.splits)
  qed
  have d: "currentPlayer (fire_v1 (Timeout pick) st) = MarkX"
    if ct: "computerTurn st" and av: "available (board st) \<noteq> []"
      and ip: "winner (fire_v1 (Timeout pick) st) = None"
  proof -
    obtain w b where "makeComputerMove_v1 pick (board st) st = settle w MarkX (st\<lparr>board := b\<rparr>)"
      using makeComputerMove_v1_settle [OF av] by blast
    with ct ip show ?thesis
      by (auto simp: settle_simps split: option.splits)
  qed
  have o: "currentPlayer st = MarkO" if "computerTurn st"
    using that by (simp add: computerTurn_def)
  show ?thesis
    using a b c d o flipMark_neq [of "currentPlayer st"]
    by (auto simp: run_terminal run_v1_terminal resetGame_def)
qed

lemma scores_settle_board:
  "winner st = None \<Longrightarrow>
   scores (settle w nxt (st\<lparr>board := b\<rparr>)) =
     (case winner (settle w nxt (st\<lparr>board := b\<rparr>)) of
        Some (Win m) \<Rightarrow> (scores st)(m := scores st m + 1)
      | _ \<Rightarrow> scores st)"
  by (simp add: settle_simps split: option.splits outcome.splits)

lemma scores_fire:
  "scores (fire e st) =
     (if winner st = None then
        (case winner (fire e st) of
           Some (Win m) \<Rightarrow> (scores st)(m := scores st m + 1)
         | _ \<Rightarrow> scores st)
      else scores st)"
proof (cases e)
  case (Press i)
  then show ?thesis
    by (simp add: handleClick_def updateGameState_eq Let_def scores_settle_board)
next
  case (Timeout pick)
  obtain w b where "makeComputerMove pick (board st) st = settle w MarkX (st\<lparr>board := b\<rparr>)"
    using makeComputerMove_settle by blast
  with Timeout show ?thesis
    by (simp add: scores_settle_board computerTurn_def)
qed (simp_all add: resetGame_def toggleGameMode_def toggleDifficulty_def)

lemma scores_fire_v1:
  "scores (fire_v1 e st) =
     (if winner st = None then
        (case winner (fire_v1 e st) of
           Some (Win m) \<Rightarrow> (scores st)(m := scores st m + 1)
         | _ \<Rightarrow> scores st)
      else scores st)"
proof (cases e)
  case (Press i)
  then show ?thesis
    by (simp add: handleClick_v1_eq Let_def scores_settle_board)
next
  case (Timeout pick)
  show ?thesis
  proof (cases "available (board st) = []")
    case True
    with Timeout show ?thesis
      by (simp add: makeComputerMove_v1_def split: option.splits outcome.splits)
  next
    case False
    then obtain w b where
      "makeComputerMove_v1 pick (board st) st = settle w MarkX (st\<lparr>board := b\<rparr>)"
      using makeComputerMove_v1_settle by blast
    with Timeout show ?thesis
      by (simp add: scores_settle_board computerTurn_def)
  qed
qed (simp_all add: resetGame_def toggleGameMode_def)

text \<open>
  With every handler finished before the next event is handled: when an event takes the
  game from no outcome to a win of mark \<open>m\<close>, the tally of \<open>m\<close> goes up by exactly one
  and the other tally stays; an event that leaves the game in progress or ends it in a
  draw, and every event after the game has ended, leaves both tallies as they were; so
  does \<^verbatim>\<open>resetGame\<close>.
\<close>

lemma score_tally:
  "(winner st = None \<and> winner (fire e st) = Some (Win m) \<longrightarrow>
      scores (fire e st) m = scores st m + 1
      \<and> scores (fire e st) (flipMark m) = scores st (flipMark m))
   \<and> (winner (fire e st) = Some Draw \<longrightarrow> scores (fire e st) = scores st)
   \<and> (winner (fire e st) = None \<longrightarrow> scores (fire e st) = scores st)
   \<and> (winner st \<noteq> None \<longrightarrow> scores (fire e st) = scores st)
   \<and> (winner st = None \<and> winner (fire_v1 e st) = Some (Win m) \<longrightarrow>
      scores (fire_v1 e st) m = scores st m + 1
      \<and> scores (fire_v1 e st) (flipMark m) = scores st (flipMark m))
   \<and> (winner (fire_v1 e st) = Some Draw \<longrightarrow> scores (fire_v1 e st) = scores st)
   \<and> (winner (fire_v1 e st) = None \<longrightarrow> scores (fire_v1 e st) = scores st)
   \<and> (winner st \<noteq> None \<longrightarrow> scores (fire_v1 e st) = scores st)
   \<and> scores (resetGame st) = scores st"
proof -
  have r: "scores (resetGame st) = scores st"
    by (simp add: resetGame_def)
  show ?thesis
    using flipMark_neq [of m] r
    by (simp add: scores_fire [of e st] scores_fire_v1 [of e st])
qed

subsection \<open>The search returns, and restores the board\<close>

lemma restored_refl: "restored b b"
  by (simp add: restored_def)

lemma restored_truthy: "restored b c \<Longrightarrow> truthy (cellAt c j) = truthy (cellAt b j)"
  unfolding restored_def by (metis truthy.simps(2,3))

lemma falsyCount_restored: "restored b c \<Longrightarrow> falsyCount c = falsyCount b"
  by (simp add: falsyCount_def restored_truthy)

lemma falsyCount_le: "falsyCount b \<le> 9"
proof -
  have "{j. j < 9 \<and> \<not> truthy (cellAt b j)} \<subseteq> {..<9}" by auto
  then have "card {j. j < 9 \<and> \<not> truthy (cellAt b j)} \<le> card {..<(9::nat)}"
    by (intro card_mono) simp_all
  then show ?thesis by (simp add: falsyCount_def)
qed

lemma falsyCount_setCell:
  assumes "i < 9" "\<not> truthy (cellAt b i)"
  shows "falsyCount (setCell b i (Mark m)) < falsyCount b"
proof -
  have "{j. j < 9 \<and> \<not> truthy (cellAt (setCell b i (Mark m)) j)}
        = {j. j < 9 \<and> \<not> truthy (cellAt b j)} - {i}"
    by (auto simp: cellAt_setCell)
  moreover have "i \<in> {j. j < 9 \<and> \<not> truthy (cellAt b j)}"
    using assms by simp
  moreover have "finite {j. j < 9 \<and> \<not> truthy (cellAt b j)}"
    by simp
  ultimately show ?thesis
    unfolding falsyCount_def by (metis card_Diff1_less)
qed

lemma restored_step:
  assumes bc: "restored b c" and i: "i < 9" and f: "\<not> truthy (cellAt c i)"
    and r: "restored (setCell c i (Mark m)) c'"
  shows "restored b (setCell c' i Null)"
proof -
  have cell: "cellAt (setCell c' i Null) j = cellAt b j
      \<or> (cellAt b j = Undefined \<and> cellAt (setCell c' i Null) j = Null)" for j
  proof (cases "j = i")
    case True
    from f bc have "cellAt b i = Null \<or> cellAt b i = Undefined"
      unfolding restored_def by (metis truthy.elims(3))
    with True show ?thesis by (auto simp: cellAt_setCell)
  next
    case False
    from r have "cellAt c' j = cellAt (setCell c i (Mark m)) j
        \<or> (cellAt (setCell c i (Mark m)) j = Undefined \<and> cellAt c' j = Null)"
      unfolding restored_def by blast
    with False have "cellAt c' j = cellAt c j \<or> (cellAt c j = Undefined \<and> cellAt c' j = Null)"
      by (simp add: cellAt_setCell)
    moreover from bc have "cellAt c j = cellAt b j \<or> (cellAt b j = Undefined \<and> cellAt c j = Null)"
      unfolding restored_def by blast
    ultimately show ?thesis
      using False by (auto simp: cellAt_setCell)
  qed
  have len: "length (setCell c' i Null) = length b" if "9 \<le> length b"
  proof -
    from bc that have lc: "length c = length b" by (simp add: restored_def)
    with i that have "length (setCell c i (Mark m)) = length b"
      by (simp add: length_setCell)
    with r that have "length c' = length b" by (simp add: restored_def)
    with i that show ?thesis by (simp add: length_setCell)
  qed
  show ?thesis
    unfolding restored_def using cell len by blast
qed

lemma jsMax_not_NaN: "x \<noteq> NaN \<Longrightarrow> y \<noteq> NaN \<Longrightarrow> jsMax x y \<noteq> NaN"
  by (simp add: jsMax_def)

lemma jsMin_not_NaN: "x \<noteq> NaN \<Longrightarrow> y \<noteq> NaN \<Longrightarrow> jsMin x y \<noteq> NaN"
  by (simp add: jsMin_def)

lemma fold_tryCell_returns:
  assumes rec: "\<And>c i. restored b c \<Longrightarrow> i \<in> set is \<Longrightarrow> \<not> truthy (cellAt c i) \<Longrightarrow>
      \<exists>v c'. recurse (setCell c i (Mark (if isMax then MarkO else MarkX))) = Some (v, c')
        \<and> restored (setCell c i (Mark (if isMax then MarkO else MarkX))) c' \<and> v \<noteq> NaN"
    and "\<forall>i \<in> set is. i < 9" and "restored b c0" and "best0 \<noteq> NaN"
  shows "\<exists>v c. fold (tryCell recurse isMax) is (Some (best0, c0)) = Some (v, c)
      \<and> restored b c \<and> v \<noteq> NaN"
  using assms
proof (induction "is" arbitrary: best0 c0)
  case Nil
  then show ?case by simp
next
  case (Cons i "is")
  show ?case
  proof (cases "truthy (cellAt c0 i)")
    case True
    then have "tryCell recurse isMax i (Some (best0, c0)) = Some (best0, c0)"
      by (simp add: tryCell_def)
    moreover have "\<exists>v c. fold (tryCell recurse isMax) is (Some (best0, c0)) = Some (v, c)
        \<and> restored b c \<and> v \<noteq> NaN"
      using Cons.prems by (intro Cons.IH) auto
    ultimately show ?thesis by simp
  next
    case False
    let ?mk = "Mark (if isMax then MarkO else MarkX)"
    from Cons.prems(1) [of c0 i] Cons.prems(3) False
    obtain v c' where rv: "recurse (setCell c0 i ?mk) = Some (v, c')"
      and rr: "restored (setCell c0 i ?mk) c'" and vn: "v \<noteq> NaN"
      by auto
    let ?best = "if isMax then jsMax best0 v else jsMin best0 v"
    have step: "tryCell recurse isMax i (Some (best0, c0)) = Some (?best, setCell c' i Null)"
      using False rv by (simp add: tryCell_def)
    have i9: "i < 9" using Cons.prems(2) by simp
    have r1: "restored b (setCell c' i Null)"
      using restored_step [OF Cons.prems(3) i9 False rr] .
    have b1: "?best \<noteq> NaN"
      using Cons.prems(4) vn by (simp add: jsMax_not_NaN jsMin_not_NaN)
    have "\<exists>v c. fold (tryCell recurse isMax) is (Some (?best, setCell c' i Null)) = Some (v, c)
        \<and> restored b c \<and> v \<noteq> NaN"
      using Cons.prems(1,2) r1 b1 by (intro Cons.IH) auto
    with step show ?thesis by simp
  qed
qed

lemma shapedScore_not_NaN: "score \<noteq> 0 \<Longrightarrow> shapedScore score depth \<noteq> NaN"
  by (simp add: shapedScore_def)

lemma minimax_returns_restored:
  "falsyCount b < n \<Longrightarrow>
     \<exists>v b'. minimax n b depth isMax = Some (v, b') \<and> restored b b' \<and> v \<noteq> NaN"
proof (induction n arbitrary: b depth isMax)
  case 0
  then show ?case by simp
next
  case (Suc n)
  show ?case
  proof (cases "evaluate b \<noteq> 0 \<or> Null \<notin> set b")
    case True
    then show ?thesis
      by (auto simp: Let_def restored_refl shapedScore_not_NaN)
  next
    case False
    let ?rec = "\<lambda>b'. minimax n b' (depth + 1) (\<not> isMax)"
    have rec: "\<exists>v c'. ?rec (setCell c i (Mark (if isMax then MarkO else MarkX))) = Some (v, c')
        \<and> restored (setCell c i (Mark (if isMax then MarkO else MarkX))) c' \<and> v \<noteq> NaN"
      if "restored b c" "i \<in> set [0..<9]" "\<not> truthy (cellAt c i)" for c i
    proof -
      have "falsyCount (setCell c i (Mark (if isMax then MarkO else MarkX))) < falsyCount c"
        using that by (intro falsyCount_setCell) simp_all
      also have "falsyCount c = falsyCount b"
        using that(1) by (rule falsyCount_restored)
      finally have "falsyCount (setCell c i (Mark (if isMax then MarkO else MarkX))) < n"
        using Suc.prems by simp
      then show ?thesis by (rule Suc.IH)
    qed
    have "\<exists>v c. fold (tryCell ?rec isMax) [0..<9] (Some (if isMax then NegInf else PosInf, b))
        = Some (v, c) \<and> restored b c \<and> v \<noteq> NaN"
      by (rule fold_tryCell_returns [OF rec]) (simp_all add: restored_refl)
    with False show ?thesis by (simp add: Let_def)
  qed
qed

lemma minimax_returns: "\<exists>r. minimax 10 b depth isMax = Some r"
proof -
  have "falsyCount b < 10" using falsyCount_le [of b] by simp
  from minimax_returns_restored [OF this] show ?thesis by blast
qed

lemma minimaxCall_restored:
  "\<exists>v b'. minimaxCall b depth isMax = (v, b') \<and> restored b b' \<and> v \<noteq> NaN"
proof -
  have "falsyCount b < 10" using falsyCount_le [of b] by simp
  from minimax_returns_restored [OF this, of depth isMax] show ?thesis
    by (auto simp: minimaxCall_def)
qed

lemma evaluateFrom_values: "evaluateFrom ls b \<in> {10, - 10, 0}"
  by (induction ls) auto

lemma evaluate_values: "evaluate b \<in> {10, - 10, 0}"
  using evaluateFrom_values [of winningLines b] by (simp add: evaluate_def)

lemma minimaxCall_leaf:
  "evaluate b \<noteq> 0 \<Longrightarrow> minimaxCall b depth isMax = (shapedScore (evaluate b) depth, b)"
  by (simp add: minimaxCall_def eval_nat_numeral Let_def)



subsection \<open>The search on the boards of the game\<close>

lemma wfBoard_cellAt: "wfBoard b \<Longrightarrow> j < 9 \<Longrightarrow> cellAt b j \<noteq> Undefined"
  unfolding wfBoard_def cellAt_def by (metis nth_mem)

lemma wfBoard_falsy: "wfBoard b \<Longrightarrow> j < 9 \<Longrightarrow> \<not> truthy (cellAt b j) \<Longrightarrow> cellAt b j = Null"
  using wfBoard_cellAt [of b j] by (cases "cellAt b j") simp_all

lemma wfBoard_restored:
  assumes wf: "wfBoard b" and r: "restored b b'"
  shows "b' = b"
proof (rule nth_equalityI)
  from wf r show len: "length b' = length b"
    by (simp add: restored_def wfBoard_def)
  fix j assume j: "j < length b'"
  with len wf have j9: "j < 9" by (simp add: wfBoard_def)
  from r have "cellAt b' j = cellAt b j \<or> (cellAt b j = Undefined \<and> cellAt b' j = Null)"
    unfolding restored_def by blast
  with wfBoard_cellAt [OF wf j9] have "cellAt b' j = cellAt b j" by simp
  with j len show "b' ! j = b ! j" by (simp add: cellAt_def)
qed

lemma minimaxCall_wf: "wfBoard b \<Longrightarrow> snd (minimaxCall b depth isMax) = b"
  using minimaxCall_restored [of b depth isMax] wfBoard_restored by fastforce

lemma wfBoard_setCell: "wfBoard b \<Longrightarrow> i < 9 \<Longrightarrow> v \<noteq> Undefined \<Longrightarrow> wfBoard (setCell b i v)"
  unfolding wfBoard_def setCell_def by (auto dest: set_update_subset_insert [THEN subsetD])

lemma setCell_back:
  assumes "wfBoard b" "i < 9" "\<not> truthy (cellAt b i)"
  shows "setCell (setCell b i v) i Null = b"
proof -
  from assms have "b ! i = Null" "i < length b"
    using wfBoard_falsy [of b i] by (simp_all add: cellAt_def wfBoard_def)
  then show ?thesis by (simp add: setCell_def list_update_same_conv)
qed

lemma fold_tryCell_None: "fold (tryCell recurse isMax) is None = None"
  by (induction "is") (simp_all add: tryCell_def)

lemma fold_tryCell_mono:
  assumes "\<And>c r. r1 c = Some r \<Longrightarrow> r2 c = Some r"
    and "fold (tryCell r1 isMax) is acc = Some x"
  shows "fold (tryCell r2 isMax) is acc = Some x"
  using assms(2)
proof (induction "is" arbitrary: acc)
  case Nil
  then show ?case by simp
next
  case (Cons i "is")
  from Cons.prems have f: "fold (tryCell r1 isMax) is (tryCell r1 isMax i acc) = Some x"
    by simp
  then obtain y where y: "tryCell r1 isMax i acc = Some y"
    by (cases "tryCell r1 isMax i acc") (simp_all add: fold_tryCell_None)
  then have "tryCell r2 isMax i acc = Some y"
    by (auto simp: tryCell_def assms(1) split: option.splits prod.splits if_splits)
  with f y Cons.IH show ?case by simp
qed

lemma minimax_fuel_Suc:
  "minimax n b depth isMax = Some r \<Longrightarrow> minimax (Suc n) b depth isMax = Some r"
proof (induction n arbitrary: b depth isMax r)
  case 0
  then show ?case by simp
next
  case (Suc n)
  show ?case
  proof (cases "evaluate b \<noteq> 0 \<or> Null \<notin> set b")
    case True
    with Suc.prems show ?thesis by (auto simp: Let_def)
  next
    case False
    with Suc.prems have
      "fold (tryCell (\<lambda>b'. minimax n b' (depth + 1) (\<not> isMax)) isMax) [0..<9]
         (Some (if isMax then NegInf else PosInf, b)) = Some r"
      by (simp add: Let_def)
    then have
      "fold (tryCell (\<lambda>b'. minimax (Suc n) b' (depth + 1) (\<not> isMax)) isMax) [0..<9]
         (Some (if isMax then NegInf else PosInf, b)) = Some r"
      by (rule fold_tryCell_mono [rotated]) (rule Suc.IH)
    with False show ?thesis by (simp add: Let_def)
  qed
qed

lemma minimax_fuel_le:
  "minimax n b depth isMax = Some r \<Longrightarrow> n \<le> n' \<Longrightarrow> minimax n' b depth isMax = Some r"
proof -
  assume r: "minimax n b depth isMax = Some r" and le: "n \<le> n'"
  have "minimax (n + k) b depth isMax = Some r" for k
    by (induction k) (simp_all add: r minimax_fuel_Suc del: minimax.simps)
  from this [of "n' - n"] le show ?thesis by simp
qed

lemma minimax_minimaxCall:
  assumes "falsyCount b < n"
  shows "minimax n b depth isMax = Some (minimaxCall b depth isMax)"
proof -
  let ?k = "Suc (falsyCount b)"
  obtain r where r: "minimax ?k b depth isMax = Some r"
    using minimax_returns_restored [of b ?k depth isMax] by auto
  have "?k \<le> 10" using falsyCount_le [of b] by simp
  from minimax_fuel_le [OF r this] have "minimaxCall b depth isMax = r"
    by (simp add: minimaxCall_def)
  moreover have "minimax n b depth isMax = Some r"
    using minimax_fuel_le [OF r] assms by simp
  ultimately show ?thesis by simp
qed

lemma fold_tryCell_wf:
  assumes wf: "wfBoard b" and "\<forall>i \<in> set is. i < 9"
    and "\<forall>i \<in> set is. \<not> truthy (cellAt b i) \<longrightarrow>
           recurse (setCell b i (Mark (if isMax then MarkO else MarkX)))
             = Some (vals i, setCell b i (Mark (if isMax then MarkO else MarkX)))"
  shows "fold (tryCell recurse isMax) is (Some (best0, b))
           = Some (bestOver isMax b vals is best0, b)"
  using assms(2,3)
proof (induction "is" arbitrary: best0)
  case Nil
  show ?case by (simp add: bestOver_def)
next
  case (Cons i "is")
  have step: "tryCell recurse isMax i (Some (best0, b))
      = Some (if truthy (cellAt b i) then best0
              else if isMax then jsMax best0 (vals i) else jsMin best0 (vals i), b)"
    using Cons.prems setCell_back [OF wf, of i]
    by (simp add: tryCell_def)
  show ?case
    using Cons.prems Cons.IH by (simp add: step bestOver_def)
qed

lemma minimaxCall_full:
  "evaluate b = 0 \<Longrightarrow> Null \<notin> set b \<Longrightarrow> minimaxCall b depth isMax = (Num 0, b)"
  by (simp add: minimaxCall_def eval_nat_numeral Let_def)

lemma minimaxCall_unfold:
  assumes wf: "wfBoard b" and e: "evaluate b = 0" and n: "Null \<in> set b"
  shows "fst (minimaxCall b depth isMax) =
     bestOver isMax b
       (\<lambda>i. fst (minimaxCall (setCell b i (Mark (if isMax then MarkO else MarkX)))
                   (depth + 1) (\<not> isMax)))
       [0..<9] (if isMax then NegInf else PosInf)"
proof -
  let ?mk = "Mark (if isMax then MarkO else MarkX)"
  let ?vals = "\<lambda>i. fst (minimaxCall (setCell b i ?mk) (depth + 1) (\<not> isMax))"
  have rec: "minimax 9 (setCell b i ?mk) (depth + 1) (\<not> isMax) = Some (?vals i, setCell b i ?mk)"
    if "i \<in> set [0..<9]" "\<not> truthy (cellAt b i)" for i
  proof -
    from that have i9: "i < 9" by simp
    have "falsyCount (setCell b i ?mk) < falsyCount b"
      using i9 that(2) by (rule falsyCount_setCell)
    with falsyCount_le [of b] have "falsyCount (setCell b i ?mk) < 9" by simp
    then have "minimax 9 (setCell b i ?mk) (depth + 1) (\<not> isMax)
        = Some (minimaxCall (setCell b i ?mk) (depth + 1) (\<not> isMax))"
      by (rule minimax_minimaxCall)
    moreover have "snd (minimaxCall (setCell b i ?mk) (depth + 1) (\<not> isMax)) = setCell b i ?mk"
      using wf i9 by (intro minimaxCall_wf wfBoard_setCell) simp_all
    ultimately show ?thesis by (simp add: prod_eq_iff)
  qed
  have "fold (tryCell (\<lambda>b'. minimax 9 b' (depth + 1) (\<not> isMax)) isMax) [0..<9]
          (Some (if isMax then NegInf else PosInf, b))
        = Some (bestOver isMax b ?vals [0..<9] (if isMax then NegInf else PosInf), b)"
    using rec by (intro fold_tryCell_wf [OF wf]) auto
  moreover have "minimax 10 b depth isMax
      = fold (tryCell (\<lambda>b'. minimax 9 b' (depth + 1) (\<not> isMax)) isMax) [0..<9]
          (Some (if isMax then NegInf else PosInf, b))"
    using e n by (simp add: eval_nat_numeral Let_def)
  ultimately show ?thesis by (simp add: minimaxCall_def)
qed

subsection \<open>The sign of the value\<close>

lemma isNum_not_NaN: "isNum x \<Longrightarrow> x \<noteq> NaN"
  by (cases x) simp_all

lemma isNum_jsMax: "x = NegInf \<or> isNum x \<Longrightarrow> isNum y \<Longrightarrow> isNum (jsMax x y)"
  by (cases x; cases y) (simp_all add: jsMax_def)

lemma isNum_jsMin: "x = PosInf \<or> isNum x \<Longrightarrow> isNum y \<Longrightarrow> isNum (jsMin x y)"
  by (cases x; cases y) (simp_all add: jsMin_def)

lemma nonneg_jsMax: "x \<noteq> NaN \<Longrightarrow> y \<noteq> NaN \<Longrightarrow> nonneg (jsMax x y) \<longleftrightarrow> nonneg x \<or> nonneg y"
  by (cases x; cases y) (auto simp: jsMax_def)

lemma nonneg_jsMin: "x \<noteq> NaN \<Longrightarrow> y \<noteq> NaN \<Longrightarrow> nonneg (jsMin x y) \<longleftrightarrow> nonneg x \<and> nonneg y"
  by (cases x; cases y) (auto simp: jsMin_def)

lemma bestOver_Cons:
  "bestOver isMax b vals (i # is) best0 =
     bestOver isMax b vals is
       (if truthy (cellAt b i) then best0
        else if isMax then jsMax best0 (vals i) else jsMin best0 (vals i))"
  by (simp add: bestOver_def)

lemma bestOver_Nil: "bestOver isMax b vals [] best0 = best0"
  by (simp add: bestOver_def)

lemma bestOver_isNum:
  assumes "\<forall>i \<in> set is. \<not> truthy (cellAt b i) \<longrightarrow> isNum (vals i)"
    and "best0 = (if isMax then NegInf else PosInf) \<or> isNum best0"
    and "isNum best0 \<or> (\<exists>i \<in> set is. \<not> truthy (cellAt b i))"
  shows "isNum (bestOver isMax b vals is best0)"
  using assms
proof (induction "is" arbitrary: best0)
  case Nil
  then show ?case by (simp add: bestOver_Nil)
next
  case (Cons i "is")
  show ?case
  proof (cases "truthy (cellAt b i)")
    case True
    with Cons.prems show ?thesis
      by (simp add: bestOver_Cons Cons.IH)
  next
    case False
    with Cons.prems have v: "isNum (vals i)" by simp
    let ?best = "if isMax then jsMax best0 (vals i) else jsMin best0 (vals i)"
    have n: "isNum ?best"
      using v Cons.prems(2) by (auto intro: isNum_jsMax isNum_jsMin split: if_splits)
    have "isNum (bestOver isMax b vals is ?best)"
      using Cons.prems(1) n by (intro Cons.IH) simp_all
    with False show ?thesis by (simp add: bestOver_Cons)
  qed
qed

lemma bestOver_nonneg_max:
  assumes "\<forall>i \<in> set is. \<not> truthy (cellAt b i) \<longrightarrow> isNum (vals i)" and "best0 \<noteq> NaN"
  shows "nonneg (bestOver True b vals is best0) \<longleftrightarrow>
         nonneg best0 \<or> (\<exists>i \<in> set is. \<not> truthy (cellAt b i) \<and> nonneg (vals i))"
  using assms
proof (induction "is" arbitrary: best0)
  case Nil
  then show ?case by (simp add: bestOver_Nil)
next
  case (Cons i "is")
  show ?case
  proof (cases "truthy (cellAt b i)")
    case True
    with Cons.prems show ?thesis
      by (simp add: bestOver_Cons Cons.IH)
  next
    case False
    with Cons.prems have v: "vals i \<noteq> NaN" by (simp add: isNum_not_NaN)
    have "nonneg (bestOver True b vals is (jsMax best0 (vals i))) \<longleftrightarrow>
        nonneg (jsMax best0 (vals i)) \<or> (\<exists>i \<in> set is. \<not> truthy (cellAt b i) \<and> nonneg (vals i))"
      using Cons.prems v by (intro Cons.IH) (simp_all add: jsMax_not_NaN)
    with False v Cons.prems(2) show ?thesis
      by (auto simp: bestOver_Cons nonneg_jsMax)
  qed
qed

lemma bestOver_nonneg_min:
  assumes "\<forall>i \<in> set is. \<not> truthy (cellAt b i) \<longrightarrow> isNum (vals i)" and "best0 \<noteq> NaN"
  shows "nonneg (bestOver False b vals is best0) \<longleftrightarrow>
         nonneg best0 \<and> (\<forall>i \<in> set is. \<not> truthy (cellAt b i) \<longrightarrow> nonneg (vals i))"
  using assms
proof (induction "is" arbitrary: best0)
  case Nil
  then show ?case by (simp add: bestOver_Nil)
next
  case (Cons i "is")
  show ?case
  proof (cases "truthy (cellAt b i)")
    case True
    with Cons.prems show ?thesis
      by (simp add: bestOver_Cons Cons.IH)
  next
    case False
    with Cons.prems have v: "vals i \<noteq> NaN" by (simp add: isNum_not_NaN)
    have "nonneg (bestOver False b vals is (jsMin best0 (vals i))) \<longleftrightarrow>
        nonneg (jsMin best0 (vals i)) \<and> (\<forall>i \<in> set is. \<not> truthy (cellAt b i) \<longrightarrow> nonneg (vals i))"
      using Cons.prems v by (intro Cons.IH) (simp_all add: jsMin_not_NaN)
    with False v Cons.prems(2) show ?thesis
      by (auto simp: bestOver_Cons nonneg_jsMin)
  qed
qed

lemma anyCell_iff: "anyCell p is \<longleftrightarrow> (\<exists>i \<in> set is. p i)"
  by (induction "is") simp_all

lemma allCell_iff: "allCell p is \<longleftrightarrow> (\<forall>i \<in> set is. p i)"
  by (induction "is") simp_all

lemma set_cellOrder: "set cellOrder = set [0..<9]"
  by (auto simp: cellOrder_def)

lemma wfBoard_Null_cell: "wfBoard b \<Longrightarrow> Null \<in> set b \<Longrightarrow> \<exists>i < 9. cellAt b i = Null"
  unfolding wfBoard_def cellAt_def by (metis in_set_conv_nth)

lemma minimaxCall_isNum: "wfBoard b \<Longrightarrow> isNum (fst (minimaxCall b depth isMax))"
proof (induction "falsyCount b" arbitrary: b depth isMax rule: less_induct)
  case less
  show ?case
  proof (cases "evaluate b \<noteq> 0")
    case True
    then show ?thesis by (simp add: minimaxCall_leaf shapedScore_def)
  next
    case e: False
    show ?thesis
    proof (cases "Null \<in> set b")
      case False
      with e show ?thesis by (simp add: minimaxCall_full)
    next
      case True
      let ?mk = "Mark (if isMax then MarkO else MarkX)"
      let ?vals = "\<lambda>i. fst (minimaxCall (setCell b i ?mk) (depth + 1) (\<not> isMax))"
      have vals: "\<forall>i \<in> set [0..<9]. \<not> truthy (cellAt b i) \<longrightarrow> isNum (?vals i)"
      proof (intro ballI impI)
        fix i assume "i \<in> set [0..<9]" and f: "\<not> truthy (cellAt b i)"
        then have i9: "i < 9" by simp
        show "isNum (?vals i)"
          using falsyCount_setCell [OF i9 f] wfBoard_setCell [OF less.prems i9]
          by (intro less.hyps) simp_all
      qed
      obtain i where "i < 9" "cellAt b i = Null"
        using wfBoard_Null_cell [OF less.prems True] by blast
      then have ex: "\<exists>i \<in> set [0..<9]. \<not> truthy (cellAt b i)"
        by (intro bexI [of _ i]) simp_all
      have "isNum (bestOver isMax b ?vals [0..<9] (if isMax then NegInf else PosInf))"
        using vals ex by (intro bestOver_isNum) simp_all
      with e True less.prems show ?thesis by (simp add: minimaxCall_unfold)
    qed
  qed
qed

lemma nonneg_minimaxCall_safe:
  "wfBoard b \<Longrightarrow> falsyCount b < n \<Longrightarrow> 0 \<le> depth \<Longrightarrow> depth + int (falsyCount b) \<le> 9 \<Longrightarrow>
     nonneg (fst (minimaxCall b depth isMax)) \<longleftrightarrow> safe n isMax b"
proof (induction n arbitrary: b depth isMax)
  case 0
  then show ?case by simp
next
  case (Suc n)
  note wf = Suc.prems(1)
  show ?case
  proof (cases "evaluate b \<noteq> 0")
    case True
    with evaluate_values [of b] have "evaluate b = 10 \<or> evaluate b = - 10" by simp
    with True Suc.prems(3,4) show ?thesis
      by (auto simp: minimaxCall_leaf shapedScore_def)
  next
    case e: False
    show ?thesis
    proof (cases "Null \<in> set b")
      case False
      with e show ?thesis by (simp add: minimaxCall_full)
    next
      case True
      let ?mk = "Mark (if isMax then MarkO else MarkX)"
      let ?vals = "\<lambda>i. fst (minimaxCall (setCell b i ?mk) (depth + 1) (\<not> isMax))"
      have num: "\<forall>i \<in> set [0..<9]. \<not> truthy (cellAt b i) \<longrightarrow> isNum (?vals i)"
        using wf by (auto intro!: minimaxCall_isNum wfBoard_setCell)
      have child: "nonneg (?vals i) \<longleftrightarrow> safe n (\<not> isMax) (setCell b i ?mk)"
        if "i < 9" "\<not> truthy (cellAt b i)" for i
      proof -
        have less: "falsyCount (setCell b i ?mk) < falsyCount b"
          using that by (rule falsyCount_setCell)
        show ?thesis
          using less Suc.prems wfBoard_setCell [OF wf that(1)]
          by (intro Suc.IH) simp_all
      qed
      have val: "fst (minimaxCall b depth isMax)
          = bestOver isMax b ?vals [0..<9] (if isMax then NegInf else PosInf)"
        using wf e True by (simp add: minimaxCall_unfold)
      show ?thesis
      proof (cases isMax)
        case True
        have "nonneg (bestOver True b ?vals [0..<9] NegInf) \<longleftrightarrow>
            (\<exists>i \<in> set [0..<9]. \<not> truthy (cellAt b i) \<and> nonneg (?vals i))"
          using num by (subst bestOver_nonneg_max) simp_all
        also have "\<dots> \<longleftrightarrow> (\<exists>i \<in> set [0..<9]. \<not> truthy (cellAt b i)
            \<and> safe n False (setCell b i (Mark MarkO)))"
          using child True by auto
        finally show ?thesis
          using e \<open>Null \<in> set b\<close> True val
          by (auto simp: anyCell_iff set_cellOrder)
      next
        case False
        have "nonneg (bestOver False b ?vals [0..<9] PosInf) \<longleftrightarrow>
            (\<forall>i \<in> set [0..<9]. \<not> truthy (cellAt b i) \<longrightarrow> nonneg (?vals i))"
          using num by (subst bestOver_nonneg_min) simp_all
        also have "\<dots> \<longleftrightarrow> (\<forall>i \<in> set [0..<9]. \<not> truthy (cellAt b i)
            \<longrightarrow> safe n True (setCell b i (Mark MarkX)))"
          using child False by auto
        finally show ?thesis
          using e \<open>Null \<in> set b\<close> False val
          by (auto simp: allCell_iff set_cellOrder)
      qed
    qed
  qed
qed

subsection \<open>The root loop\<close>

lemma rootCell_wf:
  assumes wf: "wfBoard b" and i: "i < 9"
  shows "rootCell i (bestVal, move, b) =
     (if truthy (cellAt b i) then (bestVal, move, b)
      else if jsLess bestVal (rootValue b i) then (rootValue b i, Some i, b)
      else (bestVal, move, b))"
proof (cases "truthy (cellAt b i)")
  case True
  then show ?thesis by (simp add: rootCell_def)
next
  case False
  have "snd (minimaxCall (setCell b i (Mark MarkO)) 0 False) = setCell b i (Mark MarkO)"
    using wf i by (intro minimaxCall_wf wfBoard_setCell) simp_all
  then have "minimaxCall (setCell b i (Mark MarkO)) 0 False
      = (rootValue b i, setCell b i (Mark MarkO))"
    by (simp add: rootValue_def prod_eq_iff)
  with False setCell_back [OF wf i False] show ?thesis
    by (simp add: rootCell_def)
qed

lemma fold_rootCell_wf:
  assumes wf: "wfBoard b" and "\<forall>i \<in> set is. i < 9"
  shows "fold rootCell is (bestVal, move, b) =
     (fst (pickBest b is (bestVal, move)), snd (pickBest b is (bestVal, move)), b)"
  using assms(2)
proof (induction "is" arbitrary: bestVal move)
  case Nil
  show ?case by (simp add: pickBest_def)
next
  case (Cons i "is")
  then show ?case
    by (simp add: rootCell_wf [OF wf] pickBest_def)
qed

lemma selectMove_Hard_wf:
  "wfBoard b \<Longrightarrow> selectMove Hard pick b = (snd (pickBest b [0..<9] (NegInf, None)), b)"
  by (simp add: selectMove_def fold_rootCell_wf)

lemma pickBest_Suc:
  "pickBest b (is @ [k]) acc =
     (case pickBest b is acc of (bestVal, move) \<Rightarrow>
        if truthy (cellAt b k) then (bestVal, move)
        else if jsLess bestVal (rootValue b k) then (rootValue b k, Some k)
        else (bestVal, move))"
  by (simp add: pickBest_def)

lemma rootValue_isNum: "wfBoard b \<Longrightarrow> i < 9 \<Longrightarrow> isNum (rootValue b i)"
  unfolding rootValue_def by (intro minimaxCall_isNum wfBoard_setCell) simp_all

lemma jsLess_NegInf_isNum: "isNum x \<Longrightarrow> jsLess NegInf x"
  by (cases x) simp_all

lemma jsLess_irrefl: "\<not> jsLess x x"
  by (cases x) simp_all

lemma jsLess_trans1: "isNum x \<Longrightarrow> isNum y \<Longrightarrow> isNum z \<Longrightarrow>
    \<not> jsLess x y \<Longrightarrow> jsLess x z \<Longrightarrow> jsLess y z"
  by (cases x; cases y; cases z) simp_all

lemma jsLess_trans2: "isNum x \<Longrightarrow> isNum y \<Longrightarrow> isNum z \<Longrightarrow>
    jsLess y x \<Longrightarrow> jsLess x z \<Longrightarrow> jsLess y z"
  by (cases x; cases y; cases z) simp_all

lemma jsLess_asym: "jsLess x y \<Longrightarrow> \<not> jsLess y x"
  by (cases x; cases y) simp_all

lemma pickBest_upto:
  assumes wf: "wfBoard b" and k: "k \<le> 9"
  shows "(pickBest b [0..<k] (NegInf, None) = (NegInf, None)
            \<and> (\<forall>j < k. truthy (cellAt b j)))
       \<or> (\<exists>i < k. pickBest b [0..<k] (NegInf, None) = (rootValue b i, Some i)
            \<and> \<not> truthy (cellAt b i)
            \<and> (\<forall>j < k. \<not> truthy (cellAt b j) \<longrightarrow> \<not> jsLess (rootValue b i) (rootValue b j))
            \<and> (\<forall>j < i. \<not> truthy (cellAt b j) \<longrightarrow> jsLess (rootValue b j) (rootValue b i)))"
  using k
proof (induction k)
  case 0
  show ?case by (simp add: pickBest_def)
next
  case (Suc k)
  then have k9: "k < 9" by simp
  note num = rootValue_isNum [OF wf]
  from Suc have IH:
    "(pickBest b [0..<k] (NegInf, None) = (NegInf, None) \<and> (\<forall>j < k. truthy (cellAt b j)))
     \<or> (\<exists>i < k. pickBest b [0..<k] (NegInf, None) = (rootValue b i, Some i)
            \<and> \<not> truthy (cellAt b i)
            \<and> (\<forall>j < k. \<not> truthy (cellAt b j) \<longrightarrow> \<not> jsLess (rootValue b i) (rootValue b j))
            \<and> (\<forall>j < i. \<not> truthy (cellAt b j) \<longrightarrow> jsLess (rootValue b j) (rootValue b i)))"
    by simp
  show ?case
  proof (cases "truthy (cellAt b k)")
    case True
    with IH show ?thesis
      by (auto simp: pickBest_Suc less_Suc_eq)
  next
    case False
    from IH show ?thesis
    proof (elim disjE conjE exE)
      assume p: "pickBest b [0..<k] (NegInf, None) = (NegInf, None)"
        and t: "\<forall>j < k. truthy (cellAt b j)"
      have "pickBest b [0..<Suc k] (NegInf, None) = (rootValue b k, Some k)"
        using p False jsLess_NegInf_isNum [OF num [OF k9]] by (simp add: pickBest_Suc)
      with False t show ?thesis
        by (intro disjI2 exI [of _ k]) (auto simp: less_Suc_eq jsLess_irrefl)
    next
      fix i
      assume ik: "i < k"
        and p: "pickBest b [0..<k] (NegInf, None) = (rootValue b i, Some i)"
        and fi: "\<not> truthy (cellAt b i)"
        and mx: "\<forall>j < k. \<not> truthy (cellAt b j) \<longrightarrow> \<not> jsLess (rootValue b i) (rootValue b j)"
        and fst: "\<forall>j < i. \<not> truthy (cellAt b j) \<longrightarrow> jsLess (rootValue b j) (rootValue b i)"
      from ik k9 have i9: "i < 9" by simp
      show ?thesis
      proof (cases "jsLess (rootValue b i) (rootValue b k)")
        case True
        have new: "pickBest b [0..<Suc k] (NegInf, None) = (rootValue b k, Some k)"
          using p False True by (simp add: pickBest_Suc)
        have a: "\<not> jsLess (rootValue b k) (rootValue b j)"
          if "j < Suc k" "\<not> truthy (cellAt b j)" for j
        proof (cases "j = k")
          case True
          then show ?thesis by (simp add: jsLess_irrefl)
        next
          case False
          with that have jk: "j < k" by simp
          with k9 have j9: "j < 9" by simp
          from mx jk that have "\<not> jsLess (rootValue b i) (rootValue b j)" by simp
          from jsLess_trans1 [OF num [OF i9] num [OF j9] num [OF k9] this True]
          show ?thesis by (rule jsLess_asym)
        qed
        have c: "jsLess (rootValue b j) (rootValue b k)"
          if "j < k" "\<not> truthy (cellAt b j)" for j
        proof -
          from that k9 have j9: "j < 9" by simp
          from mx that have "\<not> jsLess (rootValue b i) (rootValue b j)" by simp
          from jsLess_trans1 [OF num [OF i9] num [OF j9] num [OF k9] this True]
          show ?thesis .
        qed
        show ?thesis
          using new False a c by (intro disjI2 exI [of _ k]) simp
      next
        case nl: False
        have new: "pickBest b [0..<Suc k] (NegInf, None) = (rootValue b i, Some i)"
          using p False nl by (simp add: pickBest_Suc)
        show ?thesis
          using new fi mx fst nl ik
          by (intro disjI2 exI [of _ i]) (auto simp: less_Suc_eq)
      qed
    qed
  qed
qed

lemma selectMove_Hard_choice:
  assumes wf: "wfBoard b" and n: "Null \<in> set b"
  shows "\<exists>i < 9. selectMove Hard pick b = (Some i, b) \<and> cellAt b i = Null
     \<and> (\<forall>j < 9. cellAt b j = Null \<longrightarrow> \<not> jsLess (rootValue b i) (rootValue b j))
     \<and> (\<forall>j < i. cellAt b j = Null \<longrightarrow> jsLess (rootValue b j) (rootValue b i))"
proof -
  obtain e where e: "e < 9" "cellAt b e = Null"
    using wfBoard_Null_cell [OF wf n] by blast
  then have "\<not> (\<forall>j < 9. truthy (cellAt b j))" by auto
  with pickBest_upto [OF wf, of 9] obtain i where i: "i < 9"
    and p: "pickBest b [0..<9] (NegInf, None) = (rootValue b i, Some i)"
    and fi: "\<not> truthy (cellAt b i)"
    and mx: "\<forall>j < 9. \<not> truthy (cellAt b j) \<longrightarrow> \<not> jsLess (rootValue b i) (rootValue b j)"
    and fst: "\<forall>j < i. \<not> truthy (cellAt b j) \<longrightarrow> jsLess (rootValue b j) (rootValue b i)"
    by auto
  from p have "selectMove Hard pick b = (Some i, b)"
    by (simp add: selectMove_Hard_wf [OF wf])
  moreover from wfBoard_falsy [OF wf i fi] have "cellAt b i = Null" .
  ultimately show ?thesis
    using i mx fst by (intro exI [of _ i]) auto
qed

subsection \<open>The chosen move\<close>

lemma available_cell:
  assumes wf: "wfBoard b" and p: "pick < length (available b)"
  shows "available b ! pick < 9 \<and> cellAt b (available b ! pick) = Null"
proof -
  from p have "available b ! pick \<in> set (available b)" by simp
  with wf show ?thesis
    by (auto simp: available_def cellAt_def wfBoard_def)
qed

lemma selectMove_Easy_wf:
  "wfBoard b \<Longrightarrow> pick < length (available b) \<Longrightarrow>
     \<exists>i < 9. selectMove Easy pick b = (Some i, b) \<and> cellAt b i = Null"
  using available_cell [of b pick] by (simp add: selectMove_def)

lemma selectMove_wf:
  assumes wf: "wfBoard b"
  shows "snd (selectMove d pick b) = b
       \<and> (\<forall>i. fst (selectMove d pick b) = Some i \<longrightarrow> i < 9 \<and> cellAt b i = Null)"
proof (cases d)
  case Easy
  then show ?thesis
    using available_cell [OF wf, of pick] by (simp add: selectMove_def)
next
  case Hard
  from pickBest_upto [OF wf, of 9] wfBoard_falsy [OF wf]
  have "\<forall>i. snd (pickBest b [0..<9] (NegInf, None)) = Some i \<longrightarrow> i < 9 \<and> cellAt b i = Null"
    by auto
  with Hard show ?thesis
    by (simp add: selectMove_Hard_wf [OF wf])
qed

text \<open>
  C7.  On a board with an empty cell the root loop returns an empty cell whose value
  (the \<^verbatim>\<open>minimax\<close> value of the board with \<^verbatim>\<open>'O'\<close> placed there) no other empty cell
  exceeds, and every empty cell before it has a strictly smaller value: the greatest
  value, ties going to the lowest index.  On the two boards of the example it returns
  cell 5 and cell 2.
\<close>

theorem root_choice:
  "(wfBoard b \<and> Null \<in> set b \<longrightarrow>
      (\<exists>i < 9. fst (selectMove Hard pick b) = Some i \<and> cellAt b i = Null
         \<and> (\<forall>j < 9. cellAt b j = Null \<longrightarrow> \<not> jsLess (rootValue b i) (rootValue b j))
         \<and> (\<forall>j < i. cellAt b j = Null \<longrightarrow> jsLess (rootValue b j) (rootValue b i))))
   \<and> fst (selectMove Hard pick exampleMiddle) = Some 5
   \<and> fst (selectMove Hard pick exampleTop) = Some 2"
proof (intro conjI impI)
  assume "wfBoard b \<and> Null \<in> set b"
  then have wf: "wfBoard b" and n: "Null \<in> set b" by simp_all
  from selectMove_Hard_choice [OF wf n, of pick]
  show "\<exists>i < 9. fst (selectMove Hard pick b) = Some i \<and> cellAt b i = Null
         \<and> (\<forall>j < 9. cellAt b j = Null \<longrightarrow> \<not> jsLess (rootValue b i) (rootValue b j))
         \<and> (\<forall>j < i. cellAt b j = Null \<longrightarrow> jsLess (rootValue b j) (rootValue b i))"
    by fastforce
next
  show "fst (selectMove Hard pick exampleMiddle) = Some 5"
    by code_simp
next
  show "fst (selectMove Hard pick exampleTop) = Some 2"
    by code_simp
qed

theorem root_choice_witness:
  "wfBoard exampleMiddle \<and> Null \<in> set exampleMiddle
   \<and> (\<exists>i < 9. fst (selectMove Hard 0 exampleMiddle) = Some i \<and> cellAt exampleMiddle i = Null
         \<and> (\<forall>j < 9. cellAt exampleMiddle j = Null \<longrightarrow>
               \<not> jsLess (rootValue exampleMiddle i) (rootValue exampleMiddle j))
         \<and> (\<forall>j < i. cellAt exampleMiddle j = Null \<longrightarrow>
               jsLess (rootValue exampleMiddle j) (rootValue exampleMiddle i)))"
proof -
  have h: "wfBoard exampleMiddle \<and> Null \<in> set exampleMiddle"
    by (simp add: wfBoard_def exampleMiddle_def)
  from root_choice [where b = exampleMiddle and pick = 0] have
    "wfBoard exampleMiddle \<and> Null \<in> set exampleMiddle \<longrightarrow>
      (\<exists>i < 9. fst (selectMove Hard 0 exampleMiddle) = Some i \<and> cellAt exampleMiddle i = Null
         \<and> (\<forall>j < 9. cellAt exampleMiddle j = Null \<longrightarrow>
               \<not> jsLess (rootValue exampleMiddle i) (rootValue exampleMiddle j))
         \<and> (\<forall>j < i. cellAt exampleMiddle j = Null \<longrightarrow>
               jsLess (rootValue exampleMiddle j) (rootValue exampleMiddle i)))"
    by (rule conjunct1)
  from this h have
    "\<exists>i < 9. fst (selectMove Hard 0 exampleMiddle) = Some i \<and> cellAt exampleMiddle i = Null
         \<and> (\<forall>j < 9. cellAt exampleMiddle j = Null \<longrightarrow>
               \<not> jsLess (rootValue exampleMiddle i) (rootValue exampleMiddle j))
         \<and> (\<forall>j < i. cellAt exampleMiddle j = Null \<longrightarrow>
               jsLess (rootValue exampleMiddle j) (rootValue exampleMiddle i))"
    by (rule mp)
  with h show ?thesis by simp
qed

text \<open>
  C8.  On a board of the game with an empty cell the move-choosing part of
  \<^verbatim>\<open>makeComputerMove\<close> returns the index of an empty cell, under the search as under the
  random choice (whose position \<open>pick\<close> lies within the list of empty cells), and the
  board it leaves is the board it was given: every call of \<^verbatim>\<open>minimax\<close> hands the
  scratch board back as it received it.  The new board is the given one with \<^verbatim>\<open>'O'\<close> in
  that cell; so it is in the earlier variant.
\<close>

theorem selectMove_empty_cell:
  assumes "wfBoard b" and "Null \<in> set b" and "d = Hard \<or> pick < length (available b)"
  shows "(\<exists>i < 9. selectMove d pick b = (Some i, b) \<and> cellAt b i = Null
            \<and> board (makeComputerMove pick b (st\<lparr>difficulty := d\<rparr>)) = b[i := Mark MarkO])
       \<and> snd (minimaxCall b depth isMax) = b
       \<and> (pick < length (available b) \<longrightarrow>
            (\<exists>i < 9. cellAt b i = Null
               \<and> board (makeComputerMove_v1 pick b st) = b[i := Mark MarkO]))"
proof -
  note wf = assms(1)
  have sel: "\<exists>i < 9. selectMove d pick b = (Some i, b) \<and> cellAt b i = Null"
  proof (cases d)
    case Easy
    with assms(3) selectMove_Easy_wf [OF wf] show ?thesis by simp
  next
    case Hard
    with selectMove_Hard_choice [OF wf assms(2), of pick] show ?thesis by blast
  qed
  then obtain i where i: "i < 9" "selectMove d pick b = (Some i, b)" "cellAt b i = Null"
    by blast
  have "board (makeComputerMove pick b (st\<lparr>difficulty := d\<rparr>)) = b[i := Mark MarkO]"
    using i wf by (simp add: makeComputerMove_eq Let_def settle_simps setCell_update wfBoard_length)
  with i have first: "\<exists>i < 9. selectMove d pick b = (Some i, b) \<and> cellAt b i = Null
      \<and> board (makeComputerMove pick b (st\<lparr>difficulty := d\<rparr>)) = b[i := Mark MarkO]"
    by blast
  have v1: "\<exists>i < 9. cellAt b i = Null \<and> board (makeComputerMove_v1 pick b st) = b[i := Mark MarkO]"
    if p: "pick < length (available b)"
  proof -
    from available_cell [OF wf p] have a: "available b ! pick < 9"
      "cellAt b (available b ! pick) = Null" by simp_all
    from p have ne: "available b \<noteq> []" by auto
    have "board (makeComputerMove_v1 pick b st) = b[available b ! pick := Mark MarkO]"
      using p a wf ne
      by (simp add: makeComputerMove_v1_def Let_def settle_simps setCell_update wfBoard_length)
    with a show ?thesis by blast
  qed
  show ?thesis
    using first v1 minimaxCall_wf [OF wf] by blast
qed

theorem selectMove_empty_cell_witness:
  "wfBoard exampleMiddle \<and> Null \<in> set exampleMiddle
   \<and> 0 < length (available exampleMiddle)
   \<and> (\<exists>i < 9. selectMove Easy 0 exampleMiddle = (Some i, exampleMiddle)
          \<and> cellAt exampleMiddle i = Null
          \<and> board (makeComputerMove 0 exampleMiddle (initialGame\<lparr>difficulty := Easy\<rparr>))
              = exampleMiddle[i := Mark MarkO])
   \<and> (\<exists>i < 9. selectMove Hard 0 exampleMiddle = (Some i, exampleMiddle)
          \<and> cellAt exampleMiddle i = Null
          \<and> board (makeComputerMove 0 exampleMiddle (initialGame\<lparr>difficulty := Hard\<rparr>))
              = exampleMiddle[i := Mark MarkO])
   \<and> snd (minimaxCall exampleMiddle 0 False) = exampleMiddle
   \<and> (\<exists>i < 9. cellAt exampleMiddle i = Null
          \<and> board (makeComputerMove_v1 0 exampleMiddle initialGame) = exampleMiddle[i := Mark MarkO])"
proof -
  have h1: "wfBoard exampleMiddle" and h2: "Null \<in> set exampleMiddle"
    by (simp_all add: wfBoard_def exampleMiddle_def)
  have h3: "0 < length (available exampleMiddle)"
    by (simp add: available_def exampleMiddle_def)
  from h3 have e: "Easy = Hard \<or> 0 < length (available exampleMiddle)" by (rule disjI2)
  have d: "Hard = Hard \<or> 0 < length (available exampleMiddle)" by simp
  note t1 = selectMove_empty_cell [OF h1 h2 e, of initialGame 0 False]
  note t2 = selectMove_empty_cell [OF h1 h2 d, of initialGame 0 False]
  from t1 have c1: "\<exists>i < 9. selectMove Easy 0 exampleMiddle = (Some i, exampleMiddle)
          \<and> cellAt exampleMiddle i = Null
          \<and> board (makeComputerMove 0 exampleMiddle (initialGame\<lparr>difficulty := Easy\<rparr>))
              = exampleMiddle[i := Mark MarkO]"
    by (rule conjunct1)
  from t2 have c2: "\<exists>i < 9. selectMove Hard 0 exampleMiddle = (Some i, exampleMiddle)
          \<and> cellAt exampleMiddle i = Null
          \<and> board (makeComputerMove 0 exampleMiddle (initialGame\<lparr>difficulty := Hard\<rparr>))
              = exampleMiddle[i := Mark MarkO]"
    by (rule conjunct1)
  from t2 have c3: "snd (minimaxCall exampleMiddle 0 False) = exampleMiddle"
    by (elim conjE)
  from t2 have "0 < length (available exampleMiddle) \<longrightarrow>
      (\<exists>i < 9. cellAt exampleMiddle i = Null
          \<and> board (makeComputerMove_v1 0 exampleMiddle initialGame) = exampleMiddle[i := Mark MarkO])"
    by (elim conjE)
  from this h3 have c4: "\<exists>i < 9. cellAt exampleMiddle i = Null
          \<and> board (makeComputerMove_v1 0 exampleMiddle initialGame) = exampleMiddle[i := Mark MarkO]"
    by (rule mp)
  show ?thesis
    by (intro conjI h1 h2 h3 c1 c2 c3 c4)
qed

subsection \<open>One mark per move\<close>

lemma makeComputerMove_board:
  assumes wf: "wfBoard b"
  shows "board (makeComputerMove pick b st) =
     (case fst (selectMove (difficulty st) pick b) of
        Some i \<Rightarrow> b[i := Mark MarkO] | None \<Rightarrow> b)"
proof -
  obtain move b' where s: "selectMove (difficulty st) pick b = (move, b')"
    by (cases "selectMove (difficulty st) pick b")
  with selectMove_wf [OF wf, of "difficulty st" pick]
  have b': "b' = b" and i: "\<forall>i. move = Some i \<longrightarrow> i < 9" by auto
  show ?thesis
    using s b' i wf
    by (auto simp: makeComputerMove_eq Let_def settle_simps setCell_update wfBoard_length
        split: option.splits)
qed

lemma makeComputerMove_v1_board:
  assumes wf: "wfBoard b"
  shows "board (makeComputerMove_v1 pick b st) = board st
       \<or> (\<exists>i < 9. cellAt b i = Null \<and> board (makeComputerMove_v1 pick b st) = b[i := Mark MarkO])
       \<or> board (makeComputerMove_v1 pick b st) = b"
proof (cases "pick < length (available b)")
  case True
  then have ne: "available b \<noteq> []" by auto
  from available_cell [OF wf True] have a: "available b ! pick < 9"
    "cellAt b (available b ! pick) = Null" by simp_all
  have "board (makeComputerMove_v1 pick b st) = b[available b ! pick := Mark MarkO]"
    using True a wf ne
    by (simp add: makeComputerMove_v1_def Let_def settle_simps setCell_update wfBoard_length)
  with a show ?thesis by blast
next
  case False
  then show ?thesis
    by (simp add: makeComputerMove_v1_def Let_def settle_simps)
qed

lemma updateGameState_board:
  "i < length (board st) \<Longrightarrow> \<not> truthy (cellAt (board st) i) \<Longrightarrow> winner st = None \<Longrightarrow>
     board (updateGameState i st) = (board st)[i := Mark (currentPlayer st)]"
  by (simp add: updateGameState_eq Let_def settle_simps setCell_update)

lemma handleClick_v1_board:
  "i < length (board st) \<Longrightarrow> \<not> truthy (cellAt (board st) i) \<Longrightarrow> winner st = None \<Longrightarrow>
     board (handleClick_v1 i st) = (board st)[i := Mark (currentPlayer st)]"
  by (simp add: handleClick_v1_eq Let_def settle_simps setCell_update)

lemma fire_board:
  assumes wf: "wfBoard (board st)" and e: "isPlay e"
  shows "board (fire e st) = board st
       \<or> (\<exists>i < 9. \<exists>m. cellAt (board st) i = Null \<and> board (fire e st) = (board st)[i := Mark m])"
proof (cases e)
  case (Press i)
  show ?thesis
  proof (cases "fire e st = st")
    case True
    then show ?thesis by simp
  next
    case False
    with Press have i: "i < length (board st)" and f: "\<not> truthy (cellAt (board st) i)"
      and w: "winner st = None" and u: "fire e st = updateGameState i st"
      by (auto simp: handleClick_def updateGameState_eq split: if_splits)
    from i wf have i9: "i < 9" by (simp add: wfBoard_def)
    from wfBoard_falsy [OF wf i9 f] updateGameState_board [OF i f w] u i9
    show ?thesis by auto
  qed
next
  case (Timeout pick)
  show ?thesis
  proof (cases "computerTurn st")
    case True
    from selectMove_wf [OF wf, of "difficulty st" pick] makeComputerMove_board [OF wf, of pick st]
    have "board (makeComputerMove pick (board st) st) = board st
       \<or> (\<exists>i < 9. cellAt (board st) i = Null
            \<and> board (makeComputerMove pick (board st) st) = (board st)[i := Mark MarkO])"
      by (cases "fst (selectMove (difficulty st) pick (board st))") auto
    with True Timeout show ?thesis by auto
  next
    case False
    with Timeout show ?thesis by simp
  qed
qed (use e in simp_all)

lemma fire_v1_board:
  assumes wf: "wfBoard (board st)" and e: "isPlay e"
  shows "board (fire_v1 e st) = board st
       \<or> (\<exists>i < 9. \<exists>m. cellAt (board st) i = Null \<and> board (fire_v1 e st) = (board st)[i := Mark m])"
proof (cases e)
  case (Press i)
  show ?thesis
  proof (cases "fire_v1 e st = st")
    case True
    then show ?thesis by simp
  next
    case False
    with Press have i: "i < length (board st)" and f: "\<not> truthy (cellAt (board st) i)"
      and w: "winner st = None" and u: "fire_v1 e st = handleClick_v1 i st"
      by (auto split: if_splits)
    from i wf have i9: "i < 9" by (simp add: wfBoard_def)
    from wfBoard_falsy [OF wf i9 f] handleClick_v1_board [OF i f w] u i9
    show ?thesis by auto
  qed
next
  case (Timeout pick)
  with makeComputerMove_v1_board [OF wf, of pick st] show ?thesis
    by auto
qed (use e in simp_all)

lemma update_keeps_marks:
  assumes "cellAt b i = Null" "truthy (cellAt b j)"
  shows "cellAt (b[i := v]) j = cellAt b j"
proof -
  from assms have "i \<noteq> j" by auto
  then show ?thesis by (simp add: cellAt_def)
qed

lemma wfBoard_update: "wfBoard b \<Longrightarrow> wfBoard (b[i := Mark m])"
  unfolding wfBoard_def by (auto dest: set_update_subset_insert [THEN subsetD])

lemma wfBoard_initialBoard: "wfBoard initialBoard"
  by (simp add: wfBoard_def initialBoard_def BOARD_SIZE_def)

lemma wfBoard_fire:
  assumes wf: "wfBoard (board st)"
  shows "wfBoard (board (fire e st))"
proof (cases "isPlay e")
  case True
  with fire_board [OF wf True] show ?thesis by (auto simp: wfBoard_update wf)
next
  case False
  then show ?thesis
    by (cases e)
       (simp_all add: resetGame_def toggleGameMode_def toggleDifficulty_def wfBoard_initialBoard wf)
qed

lemma wfBoard_fire_v1:
  assumes wf: "wfBoard (board st)"
  shows "wfBoard (board (fire_v1 e st))"
proof (cases "isPlay e")
  case True
  with fire_v1_board [OF wf True] show ?thesis by (auto simp: wfBoard_update wf)
next
  case False
  then show ?thesis
    by (cases e)
       (simp_all add: resetGame_def toggleGameMode_def wfBoard_initialBoard wf)
qed

lemma fire_keeps_marks:
  "wfBoard (board st) \<Longrightarrow> isPlay e \<Longrightarrow> truthy (cellAt (board st) j) \<Longrightarrow>
     cellAt (board (fire e st)) j = cellAt (board st) j"
  using fire_board [of st e] by (auto simp: update_keeps_marks)

lemma fire_v1_keeps_marks:
  "wfBoard (board st) \<Longrightarrow> isPlay e \<Longrightarrow> truthy (cellAt (board st) j) \<Longrightarrow>
     cellAt (board (fire_v1 e st)) j = cellAt (board st) j"
  using fire_v1_board [of st e] by (auto simp: update_keeps_marks)

lemma run_keeps_marks:
  "wfBoard (board st) \<Longrightarrow> \<forall>e \<in> set es. isPlay e \<Longrightarrow> truthy (cellAt (board st) j) \<Longrightarrow>
     cellAt (board (run es st)) j = cellAt (board st) j"
  unfolding run_def
proof (induction es arbitrary: st)
  case Nil
  show ?case by simp
next
  case (Cons e es)
  from Cons.prems have k: "cellAt (board (fire e st)) j = cellAt (board st) j"
    by (simp add: fire_keeps_marks)
  with Cons.prems have "cellAt (board (fold fire es (fire e st))) j = cellAt (board (fire e st)) j"
    by (intro Cons.IH) (simp_all add: wfBoard_fire)
  with k show ?case by simp
qed

lemma run_v1_keeps_marks:
  "wfBoard (board st) \<Longrightarrow> \<forall>e \<in> set es. isPlay e \<Longrightarrow> truthy (cellAt (board st) j) \<Longrightarrow>
     cellAt (board (run_v1 es st)) j = cellAt (board st) j"
  unfolding run_v1_def
proof (induction es arbitrary: st)
  case Nil
  show ?case by simp
next
  case (Cons e es)
  from Cons.prems have k: "cellAt (board (fire_v1 e st)) j = cellAt (board st) j"
    by (simp add: fire_v1_keeps_marks)
  with Cons.prems have
    "cellAt (board (fold fire_v1 es (fire_v1 e st))) j = cellAt (board (fire_v1 e st)) j"
    by (intro Cons.IH) (simp_all add: wfBoard_fire_v1)
  with k show ?case by simp
qed

text \<open>
  With every handler finished before the next event is handled: a move that is applied
  writes the mover's mark into the targeted empty cell and leaves every other cell as it
  was; every click and every move of the computer, in a state of the game, either leaves
  the board alone or puts one mark into one empty cell; and through any sequence of
  clicks and computer moves a marked cell keeps its mark.
\<close>

lemma one_mark_per_move:
  "(i < length (board st) \<and> \<not> truthy (cellAt (board st) i) \<and> winner st = None \<longrightarrow>
      board (updateGameState i st) = (board st)[i := Mark (currentPlayer st)]
      \<and> board (handleClick_v1 i st) = (board st)[i := Mark (currentPlayer st)])
   \<and> (wfBoard (board st) \<and> isPlay e \<longrightarrow>
        (board (fire e st) = board st
         \<or> (\<exists>k < 9. \<exists>m. cellAt (board st) k = Null
               \<and> board (fire e st) = (board st)[k := Mark m]))
      \<and> (board (fire_v1 e st) = board st
         \<or> (\<exists>k < 9. \<exists>m. cellAt (board st) k = Null
               \<and> board (fire_v1 e st) = (board st)[k := Mark m])))
   \<and> (wfBoard (board st) \<and> (\<forall>e \<in> set es. isPlay e) \<and> truthy (cellAt (board st) j) \<longrightarrow>
        cellAt (board (run es st)) j = cellAt (board st) j
      \<and> cellAt (board (run_v1 es st)) j = cellAt (board st) j)"
  using updateGameState_board [of i st] handleClick_v1_board [of i st]
    fire_board [of st e] fire_v1_board [of st e]
    run_keeps_marks [of st es j] run_v1_keeps_marks [of st es j]
  by blast

subsection \<open>Who places which mark\<close>

text \<open>
  C10.  In single-player mode a click while it is the turn of \<^verbatim>\<open>'O'\<close> changes nothing,
  and a click that does change the state places \<^verbatim>\<open>'X'\<close>.  The timer of the computer's
  move acts exactly in the states in which the mode is single-player, the turn is that
  of \<^verbatim>\<open>'O'\<close> and there is no outcome yet; when it acts on a board of the game with an
  empty cell, it places \<^verbatim>\<open>'O'\<close> in an empty cell.
\<close>

theorem single_player_roles:
  "(gameMode st = Single \<and> currentPlayer st = MarkO \<longrightarrow>
      handleClick i st = st \<and> fire (Press i) st = st
      \<and> handleClick_begin i st = (st, None))
   \<and> (gameMode st = Single \<and> handleClick i st \<noteq> st \<longrightarrow>
        currentPlayer st = MarkX
      \<and> board (handleClick i st) = setCell (board st) i (Mark MarkX))
   \<and> (computerTurn st \<longleftrightarrow>
        gameMode st = Single \<and> currentPlayer st = MarkO \<and> winner st = None)
   \<and> (\<not> computerTurn st \<longrightarrow>
        fire (Timeout pick) st = st \<and> fire_v1 (Timeout pick) st = st)
   \<and> (computerTurn st \<longrightarrow>
        fire (Timeout pick) st = makeComputerMove pick (board st) st
      \<and> fire_v1 (Timeout pick) st = makeComputerMove_v1 pick (board st) st)
   \<and> (computerTurn st \<and> wfBoard (board st) \<and> Null \<in> set (board st)
      \<and> (difficulty st = Hard \<or> pick < length (available (board st))) \<longrightarrow>
        (\<exists>k < 9. cellAt (board st) k = Null
           \<and> board (fire (Timeout pick) st) = (board st)[k := Mark MarkO]))
   \<and> (computerTurn st \<and> wfBoard (board st) \<and> pick < length (available (board st)) \<longrightarrow>
        (\<exists>k < 9. cellAt (board st) k = Null
           \<and> board (fire_v1 (Timeout pick) st) = (board st)[k := Mark MarkO]))"
proof -
  have a: "handleClick i st = st \<and> fire (Press i) st = st
      \<and> handleClick_begin i st = (st, None)"
    if "gameMode st = Single" "currentPlayer st = MarkO"
    using that by (simp add: handleClick_def handleClick_begin_def)
  have b: "currentPlayer st = MarkX \<and> board (handleClick i st) = setCell (board st) i (Mark MarkX)"
    if "gameMode st = Single" "handleClick i st \<noteq> st"
    using that
    by (auto simp: handleClick_def updateGameState_eq Let_def settle_simps split: if_splits)
  have c: "\<exists>k < 9. cellAt (board st) k = Null
      \<and> board (fire (Timeout pick) st) = (board st)[k := Mark MarkO]"
    if ct: "computerTurn st" and wf: "wfBoard (board st)" and n: "Null \<in> set (board st)"
      and p: "difficulty st = Hard \<or> pick < length (available (board st))"
  proof -
    have "\<exists>k < 9. selectMove (difficulty st) pick (board st) = (Some k, board st)
        \<and> cellAt (board st) k = Null"
    proof (cases "difficulty st")
      case Easy
      with p selectMove_Easy_wf [OF wf] show ?thesis by simp
    next
      case Hard
      with selectMove_Hard_choice [OF wf n, of pick] show ?thesis by auto
    qed
    then obtain k where "k < 9" "selectMove (difficulty st) pick (board st) = (Some k, board st)"
      "cellAt (board st) k = Null" by blast
    with makeComputerMove_board [OF wf, of pick st] ct show ?thesis
      by auto
  qed
  have d: "\<exists>k < 9. cellAt (board st) k = Null
      \<and> board (fire_v1 (Timeout pick) st) = (board st)[k := Mark MarkO]"
    if ct: "computerTurn st" and wf: "wfBoard (board st)"
      and p: "pick < length (available (board st))"
  proof -
    from p have ne: "available (board st) \<noteq> []" by auto
    from available_cell [OF wf p] have k: "available (board st) ! pick < 9"
      "cellAt (board st) (available (board st) ! pick) = Null" by simp_all
    have "board (makeComputerMove_v1 pick (board st) st)
        = (board st)[available (board st) ! pick := Mark MarkO]"
      using p k wf ne
      by (simp add: makeComputerMove_v1_def Let_def settle_simps setCell_update wfBoard_length)
    with k ct show ?thesis by auto
  qed
  show ?thesis
    using a b c d by (simp add: computerTurn_def)
qed

theorem single_player_roles_witness:
  "gameMode exampleGame = Single \<and> currentPlayer exampleGame = MarkO
   \<and> handleClick 0 exampleGame = exampleGame \<and> fire (Press 0) exampleGame = exampleGame
   \<and> handleClick_begin 0 exampleGame = (exampleGame, None)
   \<and> gameMode initialGame = Single \<and> handleClick 0 initialGame \<noteq> initialGame
   \<and> currentPlayer initialGame = MarkX
   \<and> board (handleClick 0 initialGame) = setCell (board initialGame) 0 (Mark MarkX)
   \<and> \<not> computerTurn initialGame \<and> fire (Timeout 0) initialGame = initialGame
   \<and> computerTurn exampleGame
   \<and> fire (Timeout 0) exampleGame = makeComputerMove 0 (board exampleGame) exampleGame
   \<and> wfBoard (board exampleGame) \<and> Null \<in> set (board exampleGame)
   \<and> (\<exists>k < 9. cellAt (board exampleGame) k = Null
         \<and> board (fire (Timeout 0) exampleGame) = (board exampleGame)[k := Mark MarkO])
   \<and> (\<exists>k < 9. cellAt (board exampleGame) k = Null
         \<and> board (fire_v1 (Timeout 0) exampleGame) = (board exampleGame)[k := Mark MarkO])"
proof -
  have g: "gameMode exampleGame = Single" "currentPlayer exampleGame = MarkO"
    "computerTurn exampleGame" "wfBoard (board exampleGame)" "Null \<in> set (board exampleGame)"
    "difficulty exampleGame = Hard \<or> 0 < length (available (board exampleGame))"
    by code_simp+
  have p: "0 < length (available (board exampleGame))"
    by code_simp
  have i: "gameMode initialGame = Single" "\<not> computerTurn initialGame"
    by (simp_all add: initialGame_def computerTurn_def)
  have "board (handleClick 0 initialGame) \<noteq> board initialGame"
    by code_simp
  then have n: "handleClick 0 initialGame \<noteq> initialGame" by auto
  note t1 = single_player_roles [where st = exampleGame and i = 0 and pick = 0]
  note t2 = single_player_roles [where st = initialGame and i = 0 and pick = 0]
  have c1: "handleClick 0 exampleGame = exampleGame \<and> fire (Press 0) exampleGame = exampleGame
      \<and> handleClick_begin 0 exampleGame = (exampleGame, None)"
    using t1 g by blast
  have c2: "currentPlayer initialGame = MarkX
      \<and> board (handleClick 0 initialGame) = setCell (board initialGame) 0 (Mark MarkX)"
    using t2 i n by blast
  have c3: "fire (Timeout 0) initialGame = initialGame"
    using t2 i by blast
  have c4: "fire (Timeout 0) exampleGame = makeComputerMove 0 (board exampleGame) exampleGame"
    using t1 g by blast
  have c5: "\<exists>k < 9. cellAt (board exampleGame) k = Null
         \<and> board (fire (Timeout 0) exampleGame) = (board exampleGame)[k := Mark MarkO]"
    using t1 g by blast
  have c6: "\<exists>k < 9. cellAt (board exampleGame) k = Null
         \<and> board (fire_v1 (Timeout 0) exampleGame) = (board exampleGame)[k := Mark MarkO]"
    using t1 g p by blast
  from c1 c2 show ?thesis
    by (intro conjI g(1-5) i n c3 c4 c5 c6) simp_all
qed

text \<open>
  The earlier variant has no such test in its \<^verbatim>\<open>handleClick\<close>: there a click on an
  empty cell while the computer's move is pending places \<^verbatim>\<open>'O'\<close>.
\<close>

lemma handleClick_v1_no_turn_test:
  "gameMode exampleGame = Single \<and> currentPlayer exampleGame = MarkO
   \<and> cellAt (board (fire_v1 (Press 0) exampleGame)) 0 = Mark MarkO"
  by code_simp

subsection \<open>The search does not lose\<close>

lemma lineMatch_truthy: "lineMatch b l \<Longrightarrow> truthy (cellAt b (fst l))"
  by (cases l) (auto simp: lineMatch_def)

lemma returnCell_truthy: "truthy c \<Longrightarrow> returnCell c \<noteq> None"
  by (cases c) simp_all

lemma returnCell_WinX: "returnCell c = Some (Win MarkX) \<Longrightarrow> c = Mark MarkX"
  by (cases c) simp_all

lemma evaluateWinnerFrom_None:
  "evaluateWinnerFrom ls b = None \<Longrightarrow> evaluateFrom ls b = 0 \<and> Null \<in> set b"
proof (induction ls)
  case Nil
  then show ?case by (simp split: if_splits)
next
  case (Cons l ls)
  show ?case
  proof (cases "lineMatch b l")
    case True
    with Cons.prems returnCell_truthy [OF lineMatch_truthy [OF True]] show ?thesis by simp
  next
    case False
    with Cons show ?thesis by simp
  qed
qed

lemma evaluateWinnerFrom_WinX:
  "evaluateWinnerFrom ls b = Some (Win MarkX) \<Longrightarrow> evaluateFrom ls b = - 10"
proof (induction ls)
  case Nil
  then show ?case by (simp split: if_splits)
next
  case (Cons l ls)
  show ?case
  proof (cases "lineMatch b l")
    case True
    with Cons.prems have "cellAt b (fst l) = Mark MarkX"
      by (simp add: returnCell_WinX)
    with True show ?thesis by simp
  next
    case False
    with Cons show ?thesis by simp
  qed
qed

lemma evaluateWinner_None: "evaluateWinner b = None \<Longrightarrow> evaluate b = 0 \<and> Null \<in> set b"
  unfolding evaluateWinner_def evaluate_def by (rule evaluateWinnerFrom_None)

lemma evaluateWinner_WinX: "evaluateWinner b = Some (Win MarkX) \<Longrightarrow> evaluate b = - 10"
  unfolding evaluateWinner_def evaluate_def by (rule evaluateWinnerFrom_WinX)

lemma safe_lost: "evaluate b = - 10 \<Longrightarrow> \<not> safe (Suc n) isMax b"
  by simp

lemma safe_min:
  "evaluate b = 0 \<Longrightarrow> Null \<in> set b \<Longrightarrow>
     safe (Suc n) False b \<longleftrightarrow>
       (\<forall>i < 9. \<not> truthy (cellAt b i) \<longrightarrow> safe n True (setCell b i (Mark MarkX)))"
  by (auto simp: allCell_iff set_cellOrder)

lemma safe_max:
  "evaluate b = 0 \<Longrightarrow> Null \<in> set b \<Longrightarrow>
     safe (Suc n) True b \<longleftrightarrow>
       (\<exists>i < 9. \<not> truthy (cellAt b i) \<and> safe n False (setCell b i (Mark MarkO)))"
  by (auto simp: anyCell_iff set_cellOrder)

lemma safe_fuel:
  assumes "wfBoard b" "falsyCount b < n" "falsyCount b < n'"
  shows "safe n isMax b = safe n' isMax b"
proof -
  have d: "(0::int) \<le> 0" "0 + int (falsyCount b) \<le> 9"
    using falsyCount_le [of b] by simp_all
  from nonneg_minimaxCall_safe [OF assms(1,2) d, of isMax]
    nonneg_minimaxCall_safe [OF assms(1,3) d, of isMax]
  show ?thesis by simp
qed

lemma safe_child:
  assumes wf: "wfBoard b" and i: "i < 9" and f: "\<not> truthy (cellAt b i)"
  shows "safe 9 isMax (setCell b i (Mark m)) = safe 10 isMax (setCell b i (Mark m))"
proof -
  have "falsyCount (setCell b i (Mark m)) < falsyCount b"
    using i f by (rule falsyCount_setCell)
  with falsyCount_le [of b] have "falsyCount (setCell b i (Mark m)) < 9" by simp
  then show ?thesis
    using wf i by (intro safe_fuel wfBoard_setCell) simp_all
qed

lemma nonneg_mono: "isNum x \<Longrightarrow> isNum y \<Longrightarrow> \<not> jsLess x y \<Longrightarrow> nonneg y \<Longrightarrow> nonneg x"
  by (cases x; cases y) simp_all

lemma hardInvariant_settle:
  assumes wf: "wfBoard nb" and nx: "w \<noteq> Some (Win MarkX)"
    and s: "w = None \<Longrightarrow> evaluateWinner nb = None \<and> safe 10 (nxt = MarkO) nb"
    and w: "winner st = None"
  shows "hardInvariant (settle w nxt (st\<lparr>board := nb\<rparr>))"
  using assms by (cases w) (auto simp: hardInvariant_def settle_simps)

lemma hardInvariant_updateGameState:
  assumes inv: "hardInvariant st" and i: "i < 9"
    and m: "gameMode st = Single" "difficulty st = Hard" and x: "currentPlayer st = MarkX"
  shows "hardInvariant (updateGameState i st)"
proof (cases "truthy (cellAt (board st) i) \<or> winner st \<noteq> None")
  case True
  with inv show ?thesis by (simp add: updateGameState_eq)
next
  case False
  then have f: "\<not> truthy (cellAt (board st) i)" and w: "winner st = None" by simp_all
  let ?nb = "setCell (board st) i (Mark MarkX)"
  from inv have wf: "wfBoard (board st)" by (simp add: hardInvariant_def)
  from inv m w x have ev: "evaluateWinner (board st) = None" and s: "safe 10 False (board st)"
    by (simp_all add: hardInvariant_def)
  from evaluateWinner_None [OF ev] have e0: "evaluate (board st) = 0" and n: "Null \<in> set (board st)"
    by simp_all
  from s have "safe (Suc 9) False (board st)" by (simp add: eval_nat_numeral)
  with safe_min [OF e0 n, of 9] i f have "safe 9 True ?nb" by blast
  with safe_child [OF wf i f] have s10: "safe 10 True ?nb" by simp
  have wfn: "wfBoard ?nb" using wf i by (intro wfBoard_setCell) simp_all
  have nx: "evaluateWinner ?nb \<noteq> Some (Win MarkX)"
  proof
    assume "evaluateWinner ?nb = Some (Win MarkX)"
    from evaluateWinner_WinX [OF this] safe_lost [of ?nb 9 True] s10
    show False by (simp add: eval_nat_numeral)
  qed
  have "hardInvariant (settle (evaluateWinner ?nb) (flipMark (currentPlayer st)) (st\<lparr>board := ?nb\<rparr>))"
    using wfn nx s10 w x by (intro hardInvariant_settle) (simp_all add: flipMark_def)
  with False x show ?thesis by (simp add: updateGameState_eq Let_def)
qed

lemma hardInvariant_makeComputerMove:
  assumes inv: "hardInvariant st" and ct: "computerTurn st" and h: "difficulty st = Hard"
  shows "hardInvariant (makeComputerMove pick (board st) st)"
proof -
  let ?b = "board st"
  from ct have m: "gameMode st = Single" and o: "currentPlayer st = MarkO" and w: "winner st = None"
    by (simp_all add: computerTurn_def)
  from inv have wf: "wfBoard ?b" by (simp add: hardInvariant_def)
  from inv m h w o have ev: "evaluateWinner ?b = None" and s: "safe 10 True ?b"
    by (simp_all add: hardInvariant_def)
  from evaluateWinner_None [OF ev] have e0: "evaluate ?b = 0" and n: "Null \<in> set ?b"
    by simp_all
  from s have "safe (Suc 9) True ?b" by (simp add: eval_nat_numeral)
  with safe_max [OF e0 n, of 9] obtain j where j: "j < 9" and fj: "\<not> truthy (cellAt ?b j)"
    and sj: "safe 9 False (setCell ?b j (Mark MarkO))" by blast
  have sign: "nonneg (rootValue ?b k) \<longleftrightarrow> safe 10 False (setCell ?b k (Mark MarkO))"
    if "k < 9" "\<not> truthy (cellAt ?b k)" for k
  proof -
    have "falsyCount (setCell ?b k (Mark MarkO)) < falsyCount ?b"
      using that by (rule falsyCount_setCell)
    with falsyCount_le [of ?b] have c: "falsyCount (setCell ?b k (Mark MarkO)) < 10"
      "0 + int (falsyCount (setCell ?b k (Mark MarkO))) \<le> 9" by simp_all
    have "wfBoard (setCell ?b k (Mark MarkO))"
      using wf that(1) by (intro wfBoard_setCell) simp_all
    from nonneg_minimaxCall_safe [OF this c(1) _ c(2), of False] show ?thesis
      by (simp add: rootValue_def)
  qed
  from sj safe_child [OF wf j fj] sign [OF j fj] have nj: "nonneg (rootValue ?b j)" by simp
  from selectMove_Hard_choice [OF wf n, of pick] obtain i where i: "i < 9"
    and sel: "selectMove Hard pick ?b = (Some i, ?b)" and ci: "cellAt ?b i = Null"
    and mx: "\<forall>j < 9. cellAt ?b j = Null \<longrightarrow> \<not> jsLess (rootValue ?b i) (rootValue ?b j)"
    by blast
  from wfBoard_falsy [OF wf j fj] mx j have "\<not> jsLess (rootValue ?b i) (rootValue ?b j)"
    by simp
  from nonneg_mono [OF rootValue_isNum [OF wf i] rootValue_isNum [OF wf j] this nj]
  have "nonneg (rootValue ?b i)" .
  with sign [OF i] ci have s10: "safe 10 False (setCell ?b i (Mark MarkO))" by simp
  let ?nb = "setCell ?b i (Mark MarkO)"
  have wfn: "wfBoard ?nb" using wf i by (intro wfBoard_setCell) simp_all
  have nx: "evaluateWinner ?nb \<noteq> Some (Win MarkX)"
  proof
    assume "evaluateWinner ?nb = Some (Win MarkX)"
    from evaluateWinner_WinX [OF this] safe_lost [of ?nb 9 False] s10
    show False by (simp add: eval_nat_numeral)
  qed
  have "hardInvariant (settle (evaluateWinner ?nb) MarkX (st\<lparr>board := ?nb\<rparr>))"
    using wfn nx s10 w by (intro hardInvariant_settle) simp_all
  with sel h show ?thesis by (simp add: makeComputerMove_eq Let_def)
qed

lemma safe_initialBoard: "safe 10 False initialBoard"
  by code_simp

lemma hardInvariant_resetGame: "hardInvariant (resetGame st)"
proof -
  have "evaluateWinner initialBoard = None"
    by code_simp
  then show ?thesis
    by (simp add: hardInvariant_def resetGame_def wfBoard_initialBoard safe_initialBoard)
qed

lemma fire_modes:
  "isPlay e \<Longrightarrow> gameMode (fire e st) = gameMode st \<and> difficulty (fire e st) = difficulty st"
proof (cases e)
  case (Press i)
  then show ?thesis
    by (simp add: handleClick_def updateGameState_eq Let_def settle_simps)
next
  case (Timeout pick)
  obtain w b where "makeComputerMove pick (board st) st = settle w MarkX (st\<lparr>board := b\<rparr>)"
    using makeComputerMove_settle by blast
  with Timeout show ?thesis by (simp add: settle_simps)
qed simp_all

lemma hardInvariant_fire:
  assumes inv: "hardInvariant st"
  shows "hardInvariant (fire e st)"
proof (cases "isPlay e")
  case False
  then show ?thesis
    by (cases e) (simp_all add: toggleGameMode_def toggleDifficulty_def hardInvariant_resetGame inv)
next
  case True
  from inv have wf: "wfBoard (board st)" by (simp add: hardInvariant_def)
  show ?thesis
  proof (cases "gameMode st = Single \<and> difficulty st = Hard")
    case False
    with fire_modes [OF True, of st] wfBoard_fire [OF wf, of e] show ?thesis
      by (auto simp: hardInvariant_def)
  next
    case hard: True
    show ?thesis
    proof (cases e)
      case (Press i)
      show ?thesis
      proof (cases "i < length (board st) \<and> currentPlayer st = MarkX")
        case True
        with wf have "i < 9" by (simp add: wfBoard_def)
        with hardInvariant_updateGameState [OF inv this] hard True Press show ?thesis
          by (simp add: handleClick_def)
      next
        case False
        with hard Press inv show ?thesis by (auto simp: handleClick_def)
      qed
    next
      case (Timeout pick)
      with hardInvariant_makeComputerMove [OF inv, of pick] hard inv show ?thesis
        by simp
    qed (use True in simp_all)
  qed
qed

lemma hardInvariant_run: "hardInvariant st \<Longrightarrow> hardInvariant (run es st)"
  unfolding run_def by (induction es arbitrary: st) (simp_all add: hardInvariant_fire)

lemma hardInvariant_initialGame: "hardInvariant initialGame"
proof -
  have "resetGame initialGame = initialGame"
    by (simp add: resetGame_def initialGame_def)
  with hardInvariant_resetGame [of initialGame] show ?thesis by simp
qed

lemma run_modes:
  "\<forall>e \<in> set es. isPlay e \<Longrightarrow>
     gameMode (run es st) = gameMode st \<and> difficulty (run es st) = difficulty st"
  unfolding run_def by (induction es arbitrary: st) (simp_all add: fire_modes)

subsection \<open>Handlers that are not interrupted\<close>

lemma computerTurn_deps: "deps st' = deps st \<Longrightarrow> computerTurn st' = computerTurn st"
  by (simp add: deps_def computerTurn_def)

lemma timer_commit: "timer s = computerTurn (now s) \<Longrightarrow> timer (commit st' s) = computerTurn st'"
  by (auto simp: commit_def dest: computerTurn_deps)

lemma commit_fields [simp]: "now (commit st' s) = st'" "pending (commit st' s) = pending s"
  by (simp_all add: commit_def)

lemma quiet_start: "quiet (start st)"
  by (simp add: quiet_def start_def)

lemma quiet_eq: "quiet s \<longleftrightarrow> s = start (now s)"
  by (cases s) (auto simp: quiet_def start_def)

lemma start_now: "quiet s \<Longrightarrow> start (now s) = s"
  by (cases s) (auto simp: quiet_def start_def)

lemma start_fields:
  "now (start st) = st" "pending (start st) = []" "timer (start st) = computerTurn st"
  by (simp_all add: start_def)

lemma quiet_commit: "quiet s \<Longrightarrow> commit st' s = start st'"
  by (cases s) (auto simp: quiet_def start_def commit_def dest: computerTurn_deps)

lemma act_Resume_quiet: "quiet s \<Longrightarrow> act (Resume k) s = s"
  by (simp add: quiet_def)

lemma not_computerTurn_settle_X: "\<not> computerTurn (settle w MarkX st)"
  by (cases w) (auto simp: computerTurn_def settle_simps)

lemma whole_Press:
  assumes q: "quiet s"
  shows "whole (Press i) s = start (fire (Press i) (now s))"
proof (cases "i < length (board (now s)) \<and> (gameMode (now s) = Multi \<or> currentPlayer (now s) = MarkX)
    \<and> \<not> (truthy (cellAt (board (now s)) i) \<or> winner (now s) \<noteq> None)")
  case False
  then have a: "act (Do (Press i)) s = s"
    using q by (auto simp: handleClick_begin_def updateGameState_begin_def await_def quiet_commit
        start_now)
  from False have f: "fire (Press i) (now s) = now s"
    by (auto simp: handleClick_def updateGameState_eq)
  have "whole (Press i) s = act (Resume 0) s"
    unfolding whole_def by (simp only: a)
  also have "\<dots> = s" using q by (rule act_Resume_quiet)
  finally show ?thesis
    by (simp only: f start_now [OF q])
next
  case True
  let ?st = "now s"
  let ?nb = "setCell (board ?st) i (Mark (currentPlayer ?st))"
  let ?t = "UpdateTail ?nb (currentPlayer ?st)"
  from True have b: "handleClick_begin i ?st = (?st\<lparr>board := ?nb\<rparr>, Some ?t)"
    by (simp add: handleClick_begin_def updateGameState_begin_def Let_def)
  have "act (Do (Press i)) s = (start (?st\<lparr>board := ?nb\<rparr>))\<lparr>pending := [?t]\<rparr>"
    using True b q by (simp add: await_def quiet_commit start_def)
  then have "whole (Press i) s
      = commit (resume ?t (?st\<lparr>board := ?nb\<rparr>)) (start (?st\<lparr>board := ?nb\<rparr>))"
    by (simp add: whole_def start_def)
  also have "\<dots> = start (resume ?t (?st\<lparr>board := ?nb\<rparr>))"
    by (rule quiet_commit [OF quiet_start])
  also have "resume ?t (?st\<lparr>board := ?nb\<rparr>) = fire (Press i) ?st"
    using True by (auto simp: handleClick_def updateGameState_def updateGameState_begin_def Let_def)
  finally show ?thesis .
qed

lemma whole_Timeout:
  assumes q: "quiet s"
  shows "whole (Timeout pick) s = start (fire (Timeout pick) (now s))"
proof (cases "computerTurn (now s)")
  case False
  with q have a: "act (Do (Timeout pick)) s = s" by (simp add: quiet_def)
  from False have f: "fire (Timeout pick) (now s) = now s" by simp
  have "whole (Timeout pick) s = act (Resume 0) s"
    unfolding whole_def by (simp only: a)
  also have "\<dots> = s" using q by (rule act_Resume_quiet)
  finally show ?thesis
    by (simp only: f start_now [OF q])
next
  case True
  let ?st = "now s"
  let ?t = "makeComputerMove_begin pick (board ?st) ?st"
  let ?st' = "makeComputerMove pick (board ?st) ?st"
  from q True have s: "s = \<lparr>now = ?st, pending = [], timer = True\<rparr>"
    by (cases s) (simp add: quiet_def)
  have "act (Do (Timeout pick)) s = \<lparr>now = ?st, pending = [?t], timer = False\<rparr>"
    by (subst s) (simp add: await_def)
  then have w: "whole (Timeout pick) s
      = commit ?st' \<lparr>now = ?st, pending = [], timer = False\<rparr>"
    by (simp add: whole_def makeComputerMove_def)
  obtain w b where "?st' = settle w MarkX (?st\<lparr>board := b\<rparr>)"
    using makeComputerMove_settle by blast
  then have n: "\<not> computerTurn ?st'"
    by (simp add: not_computerTurn_settle_X)
  with True have "deps ?st' \<noteq> deps ?st"
    by (auto dest: computerTurn_deps)
  with n have "commit ?st' \<lparr>now = ?st, pending = [], timer = False\<rparr> = start ?st'"
    by (simp add: commit_def start_def)
  with w True show ?thesis by simp
qed

lemma whole_fire:
  assumes q: "quiet s"
  shows "whole e s = start (fire e (now s))"
proof (cases e)
  case (Press i)
  with whole_Press [OF q] show ?thesis by simp
next
  case (Timeout pick)
  with whole_Timeout [OF q] show ?thesis by simp
next
  case PressReset
  with q show ?thesis
    by (simp add: whole_def quiet_commit start_fields)
next
  case PressMode
  with q show ?thesis
    by (simp add: whole_def quiet_commit start_fields)
next
  case PressDifficulty
  show ?thesis
  proof (cases "gameMode (now s) = Single")
    case True
    with q PressDifficulty show ?thesis
      by (simp add: whole_def quiet_commit start_fields)
  next
    case False
    with q PressDifficulty show ?thesis
      by (simp add: whole_def quiet_def start_now [OF q])
  qed
qed

lemma wholes_run: "quiet s \<Longrightarrow> wholes es s = start (run es (now s))"
  unfolding wholes_def run_def
proof (induction es arbitrary: s)
  case Nil
  then show ?case by (simp add: start_now)
next
  case (Cons e es)
  from whole_fire [OF Cons.prems] have w: "whole e s = start (fire e (now s))" .
  have "fold whole es (start (fire e (now s))) = start (fold fire es (now (start (fire e (now s)))))"
    by (rule Cons.IH [OF quiet_start])
  with w show ?case by (simp add: start_def)
qed

lemma wholes_modes:
  assumes "quiet s" "\<forall>e \<in> set es. isPlay e"
  shows "gameMode (now (wholes es s)) = gameMode (now s)
       \<and> difficulty (now (wholes es s)) = difficulty (now s)"
  using run_modes [OF assms(2), of "now s"] by (simp add: wholes_run [OF assms(1)] start_fields)

text \<open>
  C1, as amended.  Take a game in which every handler has finished before the next event
  is handled, so that the marks alternate.  From every state in single-player mode at
  difficulty \<^verbatim>\<open>'hard'\<close> whose board the opponent cannot win by force (\<open>safe\<close>), whatever
  cells the opponent presses and whenever the timer fires, the search moving for
  \<^verbatim>\<open>'O'\<close>, the game never reaches a win of \<^verbatim>\<open>'X'\<close>: it stays in progress, or ends in a
  draw or a win of \<^verbatim>\<open>'O'\<close>.  The empty board is such a board: after any sequence of such
  events from the initial state, resets and toggles included, a state in single-player
  mode at difficulty \<^verbatim>\<open>'hard'\<close> does not have \<^verbatim>\<open>'X'\<close> as its winner.
\<close>

theorem minimax_never_loses:
  "(quiet s \<and> wfBoard (board (now s)) \<and> gameMode (now s) = Single
      \<and> difficulty (now s) = Hard \<and> winner (now s) = None
      \<and> evaluateWinner (board (now s)) = None
      \<and> safe 10 (currentPlayer (now s) = MarkO) (board (now s))
      \<and> (\<forall>e \<in> set es. isPlay e) \<longrightarrow>
        winner (now (wholes es s)) \<noteq> Some (Win MarkX))
   \<and> safe 10 False initialBoard
   \<and> (gameMode (now (wholes es (start initialGame))) = Single
      \<and> difficulty (now (wholes es (start initialGame))) = Hard \<longrightarrow>
        winner (now (wholes es (start initialGame))) \<noteq> Some (Win MarkX))"
proof (intro conjI impI)
  assume a: "quiet s \<and> wfBoard (board (now s)) \<and> gameMode (now s) = Single
      \<and> difficulty (now s) = Hard \<and> winner (now s) = None
      \<and> evaluateWinner (board (now s)) = None
      \<and> safe 10 (currentPlayer (now s) = MarkO) (board (now s))
      \<and> (\<forall>e \<in> set es. isPlay e)"
  then have "hardInvariant (now s)" by (simp add: hardInvariant_def)
  then have "hardInvariant (run es (now s))" by (rule hardInvariant_run)
  moreover from a run_modes [of es "now s"]
  have "gameMode (run es (now s)) = Single" "difficulty (run es (now s)) = Hard" by simp_all
  ultimately have "winner (run es (now s)) \<noteq> Some (Win MarkX)"
    by (simp add: hardInvariant_def)
  with a show "winner (now (wholes es s)) \<noteq> Some (Win MarkX)"
    by (simp add: wholes_run start_fields)
next
  show "safe 10 False initialBoard" by (rule safe_initialBoard)
next
  assume "gameMode (now (wholes es (start initialGame))) = Single
      \<and> difficulty (now (wholes es (start initialGame))) = Hard"
  with hardInvariant_run [OF hardInvariant_initialGame, of es]
  show "winner (now (wholes es (start initialGame))) \<noteq> Some (Win MarkX)"
    by (simp add: hardInvariant_def wholes_run [OF quiet_start] start_fields)
qed

theorem minimax_never_loses_witness:
  "quiet (start exampleLate) \<and> wfBoard (board (now (start exampleLate)))
   \<and> gameMode (now (start exampleLate)) = Single \<and> difficulty (now (start exampleLate)) = Hard
   \<and> winner (now (start exampleLate)) = None
   \<and> evaluateWinner (board (now (start exampleLate))) = None
   \<and> safe 10 (currentPlayer (now (start exampleLate)) = MarkO) (board (now (start exampleLate)))
   \<and> winner (now (wholes [Timeout 0] (start exampleLate))) \<noteq> Some (Win MarkX)
   \<and> winner (now (wholes [Timeout 0] (start exampleLate))) = Some (Win MarkO)
   \<and> safe 10 (currentPlayer (now (start exampleLast)) = MarkO) (board (now (start exampleLast)))
   \<and> winner (now (wholes [Press 8] (start exampleLast))) \<noteq> Some (Win MarkX)
   \<and> winner (now (wholes [Press 8] (start exampleLast))) = Some Draw
   \<and> gameMode (now (wholes exampleMoves (start initialGame))) = Single
   \<and> difficulty (now (wholes exampleMoves (start initialGame))) = Hard
   \<and> winner (now (wholes exampleMoves (start initialGame))) \<noteq> Some (Win MarkX)"
proof -
  have h: "quiet (start exampleLate)" "wfBoard (board (now (start exampleLate)))"
    "gameMode (now (start exampleLate)) = Single" "difficulty (now (start exampleLate)) = Hard"
    "winner (now (start exampleLate)) = None"
    "evaluateWinner (board (now (start exampleLate))) = None"
    "safe 10 (currentPlayer (now (start exampleLate)) = MarkO) (board (now (start exampleLate)))"
    by code_simp+
  have k: "quiet (start exampleLast)" "wfBoard (board (now (start exampleLast)))"
    "gameMode (now (start exampleLast)) = Single" "difficulty (now (start exampleLast)) = Hard"
    "winner (now (start exampleLast)) = None"
    "evaluateWinner (board (now (start exampleLast))) = None"
    "safe 10 (currentPlayer (now (start exampleLast)) = MarkO) (board (now (start exampleLast)))"
    by code_simp+
  have o: "winner (now (wholes [Timeout 0] (start exampleLate))) = Some (Win MarkO)"
    "winner (now (wholes [Press 8] (start exampleLast))) = Some Draw"
    by code_simp+
  have p: "\<forall>e \<in> set [Timeout 0]. isPlay e" "\<forall>e \<in> set [Press 8]. isPlay e"
    "\<forall>e \<in> set exampleMoves. isPlay e"
    by (simp_all add: exampleMoves_def)
  have g: "gameMode (now (wholes exampleMoves (start initialGame))) = Single"
    "difficulty (now (wholes exampleMoves (start initialGame))) = Hard"
    using wholes_modes [OF quiet_start p(3), of initialGame]
    by (simp_all add: start_fields initialGame_def)
  have c1: "winner (now (wholes [Timeout 0] (start exampleLate))) \<noteq> Some (Win MarkX)"
    using minimax_never_loses [where s = "start exampleLate" and es = "[Timeout 0]"] h p(1)
    by blast
  have c2: "winner (now (wholes [Press 8] (start exampleLast))) \<noteq> Some (Win MarkX)"
    using minimax_never_loses [where s = "start exampleLast" and es = "[Press 8]"] k p(2)
    by blast
  have c3: "winner (now (wholes exampleMoves (start initialGame))) \<noteq> Some (Win MarkX)"
    using minimax_never_loses [where s = "start exampleLast" and es = exampleMoves] g
    by blast
  show ?thesis
    by (intro conjI h k(7) o g c1 c2 c3)
qed

text \<open>
  C1 as stated fails.  The board with \<^verbatim>\<open>'X'\<close> at 0 and 4 and \<^verbatim>\<open>'O'\<close> at 1 is reached
  by legal alternating moves, and the component reaches it in single-player mode at
  difficulty \<^verbatim>\<open>'hard'\<close> with the computer to move (\<open>reachLost\<close>); from there, every
  handler finished before the next event, the search moving for \<^verbatim>\<open>'O'\<close>, the opponent
  wins with cells 3 and 5.
\<close>

theorem minimax_loses_lost_position:
  "board (now (steps reachLost (start initialGame)))
     = board (now (wholes [Press 0, Press 1, Press 4] (start (initialGame\<lparr>gameMode := Multi\<rparr>))))
   \<and> board (now (steps reachLost (start initialGame))) = board exampleLost
   \<and> quiet (steps reachLost (start initialGame))
   \<and> currentPlayer (now (steps reachLost (start initialGame))) = MarkO
   \<and> winner (now (steps reachLost (start initialGame))) = None
   \<and> gameMode (now (steps reachLost (start initialGame))) = Single
   \<and> difficulty (now (steps reachLost (start initialGame))) = Hard
   \<and> winner (now (wholes [Timeout 0, Press 3, Timeout 0, Press 5]
                     (steps reachLost (start initialGame)))) = Some (Win MarkX)"
  by code_simp

subsection \<open>Events handled during an await\<close>

text \<open>
  C4.  The turn is to pass to the other mark after each applied move that leaves the game
  in progress.  The component breaks this: \<^verbatim>\<open>updateGameState\<close> commits the board, awaits
  the sound, and only then passes the turn, from the \<^verbatim>\<open>currentPlayer\<close> of its own render.
  In the initial state, after cell 0 is pressed the mark is on the board and the turn is
  still that of \<^verbatim>\<open>'X'\<close>; a press of cell 4 during the \<^verbatim>\<open>await\<close> passes both tests and
  places \<^verbatim>\<open>'X'\<close> again; the two rests both set the turn to \<^verbatim>\<open>'O'\<close>.  Two moves have been
  applied, both by \<^verbatim>\<open>'X'\<close>, and the turn has passed once.
\<close>

theorem overlapping_presses_one_flip:
  "board (now (steps [Do (Press 0)] (start initialGame)))
     = [Mark MarkX, Null, Null, Null, Null, Null, Null, Null, Null]
   \<and> currentPlayer (now (steps [Do (Press 0)] (start initialGame))) = MarkX
   \<and> winner (now (steps [Do (Press 0)] (start initialGame))) = None
   \<and> board (now (steps [Do (Press 0), Do (Press 4)] (start initialGame)))
     = [Mark MarkX, Null, Null, Null, Mark MarkX, Null, Null, Null, Null]
   \<and> currentPlayer (now (steps [Do (Press 0), Do (Press 4)] (start initialGame))) = MarkX
   \<and> board (now (steps overlapTurn (start initialGame)))
     = [Mark MarkX, Null, Null, Null, Mark MarkX, Null, Null, Null, Null]
   \<and> currentPlayer (now (steps overlapTurn (start initialGame))) = MarkO
   \<and> winner (now (steps overlapTurn (start initialGame))) = None
   \<and> pending (steps overlapTurn (start initialGame)) = []"
  by code_simp

text \<open>
  C5.  The tally of a mark is to go up by exactly one when that mark wins a game.  The
  component breaks this, by the same \<^verbatim>\<open>await\<close> in \<^verbatim>\<open>updateGameState\<close>: in two-player
  mode, with \<^verbatim>\<open>'X'\<close> on cells 0 and 3 and to move, cell 6 is pressed and, during the
  \<^verbatim>\<open>await\<close>, cell 2; each rest finds the left column on its own board and adds one to
  the tally of \<^verbatim>\<open>'X'\<close>.  One game, one win, two points.
\<close>

theorem overlapping_presses_score_twice:
  "scores (now (start initialGame)) MarkX = 0
   \<and> winner (now (steps (butlast overlapWin) (start initialGame))) = Some (Win MarkX)
   \<and> scores (now (steps (butlast overlapWin) (start initialGame))) MarkX = 1
   \<and> board (now (steps overlapWin (start initialGame)))
     = [Mark MarkX, Mark MarkO, Mark MarkX, Mark MarkX, Mark MarkO, Null, Mark MarkX, Null, Null]
   \<and> winner (now (steps overlapWin (start initialGame))) = Some (Win MarkX)
   \<and> scores (now (steps overlapWin (start initialGame))) MarkX = 2
   \<and> scores (now (steps overlapWin (start initialGame))) MarkO = 0
   \<and> pending (steps overlapWin (start initialGame)) = []"
  by code_simp

text \<open>
  C6.  A move is to change exactly one cell, and a marked cell is to keep its mark until
  the board is reset.  The component breaks both.  In the earlier variant
  \<^verbatim>\<open>handleClick\<close> awaits the sound first and then copies the board of its own render:
  with cells 0 and 1 pressed one during the other's \<^verbatim>\<open>await\<close>, the first rest marks
  cell 0 and the second sets a board on which cell 0 is empty again.  In
  \<^verbatim>\<open>TicTacToe.tsx\<close>, \<^verbatim>\<open>makeComputerMove\<close> sets the board it was called with after its
  \<^verbatim>\<open>await\<close>: with the reset button pressed in between, its rest turns the cleared board
  into one with two marks in one step.
\<close>

theorem overlapping_handlers_overwrite:
  "board (now (steps_v1 [Do (Press 0), Do (Press 1), Resume 0] (start initialGame)))
     = [Mark MarkX, Null, Null, Null, Null, Null, Null, Null, Null]
   \<and> board (now (steps_v1 [Do (Press 0), Do (Press 1), Resume 0, Resume 0] (start initialGame)))
     = [Null, Mark MarkX, Null, Null, Null, Null, Null, Null, Null]
   \<and> board (now (steps (butlast overlapReset) (start initialGame))) = initialBoard
   \<and> board (now (steps overlapReset (start initialGame)))
     = [Mark MarkO, Null, Null, Null, Mark MarkX, Null, Null, Null, Null]"
  by code_simp

end
